theory Spec2Isabelle
  imports Main "HOL-Library.Word" "HOL-Library.Monad_Syntax" "HOL-Library.Multiset"
    "HOL-Library.Sublist" "HOL-Library.Code_Target_Nat"
begin

unbundle bit_operations_syntax

section \<open>Bytes, hash primitives and constants\<close>

type_synonym byte = "8 word"

text \<open>
  The hash primitives of \<open>crypto/sha2.h\<close> are external: they are parameters of the
  model. A hash is the 32-byte output buffer as a list of bytes, and a \<open>memcmp\<close> of
  two 32-byte buffers is the equality of the two lists.
\<close>

record crypto =
  double_sha256 :: "byte list \<Rightarrow> byte list"
  double_sha256_two_32_inputs :: "byte list \<Rightarrow> byte list \<Rightarrow> byte list"

text \<open>
  The constants of \<open>relayprocess.h\<close> are parameters as well. \<open>RELAY_MAGIC_BYTES\<close>,
  \<open>BLOCK_TYPE\<close> and \<open>TRANSACTION_TYPE\<close> are given by the four bytes each one
  occupies in a \<open>relay_msg_header\<close>; \<open>TEST_DATA\<close> tells whether the build defines
  the macro of that name (it disables the block version test).
\<close>

record constants =
  RELAY_MAGIC_BYTES :: "byte list"
  BLOCK_TYPE :: "byte list"
  TRANSACTION_TYPE :: "byte list"
  MAX_RELAY_TRANSACTION_BYTES :: nat
  OLD_MAX_RELAY_TRANSACTION_BYTES :: nat
  OLD_MAX_EXTRA_OVERSIZE_TRANSACTIONS :: nat
  OLD_MAX_RELAY_OVERSIZE_TRANSACTION_BYTES :: nat
  TEST_DATA :: bool

text \<open>\<open>sizeof(struct bitcoin_msg_header)\<close>: the 24-byte message header before a block.\<close>

definition bitcoin_msg_header_size :: nat where
  "bitcoin_msg_header_size = 24"

text \<open>Big-endian and little-endian readings of a byte string, and \<open>htonl\<close> laid out in memory.\<close>

definition be_nat :: "byte list \<Rightarrow> nat" where
  "be_nat bs = foldl (\<lambda>acc b. acc * 256 + unat b) 0 bs"

definition le_nat :: "byte list \<Rightarrow> nat" where
  "le_nat bs = foldr (\<lambda>b acc. unat b + 256 * acc) bs 0"

definition htonl_bytes :: "nat \<Rightarrow> byte list" where
  "htonl_bytes n =
     [of_nat (n div 16777216 mod 256), of_nat (n div 65536 mod 256),
      of_nat (n div 256 mod 256), of_nat (n mod 256)]"

fun le_bytes :: "nat \<Rightarrow> nat \<Rightarrow> byte list" where
  "le_bytes 0 n = []"
| "le_bytes (Suc k) n = of_nat (n mod 256) # le_bytes k (n div 256)"

section \<open>The transaction cache\<close>

text \<open>
  Modelled from the spec: the cache class behind \<open>send_tx_cache\<close> and
  \<open>recv_tx_cache\<close> (its \<open>contains\<close>, \<open>add\<close>, \<open>flagCount\<close> and the two \<open>remove\<close>
  overloads) is not in the source file. The spec describes an ordered collection of
  transaction blobs, appended at the tail with an oversize flag or a size cost, indexed
  from 0, where a removal shifts every later entry down by one, bounded in capacity with
  the eldest entry evicted first.
\<close>

datatype tx_flag = Oversize bool | Cost nat

record TxCache =
  entries :: "(byte list \<times> tx_flag) list"
  capacity :: nat

definition blobs :: "TxCache \<Rightarrow> byte list list" where
  "blobs c = map fst (entries c)"

text \<open>Modelled from the spec: membership test by blob.\<close>

definition contains :: "TxCache \<Rightarrow> byte list \<Rightarrow> bool" where
  "contains c tx \<longleftrightarrow> tx \<in> set (blobs c)"

text \<open>Modelled from the spec: the number of oversize entries currently held.\<close>

definition flagCount :: "TxCache \<Rightarrow> nat" where
  "flagCount c = length (filter (\<lambda>e. snd e = Oversize True) (entries c))"

text \<open>
  Modelled from the spec: append at the tail (a blob already held is not added twice),
  then evict the eldest entries while the cache is over its capacity.
\<close>

definition add :: "TxCache \<Rightarrow> byte list \<Rightarrow> tx_flag \<Rightarrow> TxCache" where
  "add c tx flag =
     (if contains c tx then c
      else let es = entries c @ [(tx, flag)]
           in c\<lparr>entries := drop (length es - capacity c) es\<rparr>)"

fun find_blob :: "byte list \<Rightarrow> byte list list \<Rightarrow> nat option" where
  "find_blob tx [] = None"
| "find_blob tx (b # bs) =
     (if b = tx then Some 0 else map_option Suc (find_blob tx bs))"

definition remove_nth :: "nat \<Rightarrow> 'a list \<Rightarrow> 'a list" where
  "remove_nth i xs = take i xs @ drop (Suc i) xs"

text \<open>
  Modelled from the spec: \<open>remove(byte_range)\<close> of the send side finds the blob by
  content; on a hit it returns the blob's current index and evicts it, on a miss it
  returns \<open>-1\<close>.
\<close>

definition remove_tx :: "TxCache \<Rightarrow> byte list \<Rightarrow> int \<times> TxCache" where
  "remove_tx c tx =
     (case find_blob tx (blobs c) of
        None \<Rightarrow> (- 1, c)
      | Some i \<Rightarrow> (int i, c\<lparr>entries := remove_nth i (entries c)\<rparr>))"

text \<open>
  Modelled from the spec: \<open>remove(index, into_buffer, into_hash32)\<close> of the receive
  side copies the blob at \<open>index\<close>, writes its double-SHA-256, and evicts the entry;
  it fails when the entry is missing.
\<close>

definition remove_at :: "crypto \<Rightarrow> TxCache \<Rightarrow> nat \<Rightarrow> (byte list \<times> byte list \<times> TxCache) option" where
  "remove_at H c i =
     (if i < length (entries c)
      then Some (blobs c ! i, double_sha256 H (blobs c ! i),
                 c\<lparr>entries := remove_nth i (entries c)\<rparr>)
      else None)"

section \<open>The relay node\<close>

record RelayNodeCompressor =
  useOldFlags :: bool
  send_tx_cache :: TxCache
  recv_tx_cache :: TxCache
  blocksAlreadySeen :: "byte list set"

text \<open>
  Modelled from the spec: \<open>tx_to_msg\<close> is not in the source file. The
  single-transaction relay message is a 12-byte header (magic, type, \<open>htonl\<close> of the
  length) followed by the transaction bytes.
\<close>

definition tx_to_msg :: "constants \<Rightarrow> byte list \<Rightarrow> byte list" where
  "tx_to_msg K tx =
     RELAY_MAGIC_BYTES K @ TRANSACTION_TYPE K @ htonl_bytes (length tx mod 2 ^ 32) @ tx"

text \<open>
  \<open>get_relay_transaction\<close>. The result is the message (\<open>None\<close> for the empty
  pointer) and the node after the call. The source tests \<open>!useOldFlags\<close> and then
  \<open>useOldFlags\<close> in two consecutive blocks; the flag does not change in between.
\<close>

definition get_relay_transaction ::
  "constants \<Rightarrow> RelayNodeCompressor \<Rightarrow> byte list \<Rightarrow> byte list option \<times> RelayNodeCompressor" where
  "get_relay_transaction K s tx =
     (if contains (send_tx_cache s) tx then (None, s)
      else if \<not> useOldFlags s then
        (if length tx > MAX_RELAY_TRANSACTION_BYTES K then (None, s)
         else (Some (tx_to_msg K tx),
               s\<lparr>send_tx_cache := add (send_tx_cache s) tx (Cost (length tx))\<rparr>))
      else
        (if length tx > OLD_MAX_RELAY_TRANSACTION_BYTES K \<and>
            (flagCount (send_tx_cache s) \<ge> OLD_MAX_EXTRA_OVERSIZE_TRANSACTIONS K \<or>
             length tx > OLD_MAX_RELAY_OVERSIZE_TRANSACTION_BYTES K)
         then (None, s)
         else (Some (tx_to_msg K tx),
               s\<lparr>send_tx_cache :=
                    add (send_tx_cache s) tx
                      (Oversize (length tx > OLD_MAX_RELAY_TRANSACTION_BYTES K))\<rparr>)))"

section \<open>The Merkle tree builder\<close>

text \<open>
  \<open>hashlist\<close> is a flat buffer of \<open>32 * N\<close> bytes; here it is the list of its \<open>N\<close>
  32-byte slots, so \<open>&hashlist[32 * k]\<close> is slot \<open>k\<close>. The \<open>uint32_t\<close> counters stay
  below twice the number of slots, which both callers bound by 100000, so they are
  natural numbers; \<open>(rowSize - 1) & 0xfffffffe\<close> clears the lowest bit. A result
  \<open>None\<close> stands for a run that does not return a value: a failed \<open>assert\<close> or a
  read outside the buffer.
\<close>

function merkle_pairs ::
  "crypto \<Rightarrow> byte list list \<Rightarrow> nat \<Rightarrow> nat \<Rightarrow> nat \<Rightarrow> nat \<Rightarrow> byte list list option" where
  "merkle_pairs H hashlist stepCount lastMax rowSize i =
     (if i < rowSize then
        (if i * stepCount < length hashlist \<and> lastMax < length hashlist
         then merkle_pairs H
                (hashlist[i * stepCount :=
                   double_sha256_two_32_inputs H (hashlist ! (i * stepCount))
                     (hashlist ! (min ((i + 1) * stepCount) lastMax))])
                stepCount lastMax rowSize (i + 2)
         else None)
      else Some hashlist)"
  by pat_completeness auto
termination
  by (relation "measure (\<lambda>(H, hashlist, stepCount, lastMax, rowSize, i). rowSize - i)") auto

function merkle_rows ::
  "crypto \<Rightarrow> byte list list \<Rightarrow> byte list \<Rightarrow> nat \<Rightarrow> nat \<Rightarrow> nat \<Rightarrow> bool option" where
  "merkle_rows H hashlist match stepCount lastMax rowSize =
     (if rowSize > 1 then
        (if lastMax < stepCount \<or> length hashlist \<le> lastMax then None
         else if hashlist ! (lastMax - stepCount) = hashlist ! lastMax then Some False
         else
           (case merkle_pairs H hashlist stepCount lastMax rowSize 0 of
              None \<Rightarrow> None
            | Some hashlist' \<Rightarrow>
                merkle_rows H hashlist' match (stepCount * 2)
                  (2 * ((rowSize - 1) div 2) * stepCount) ((rowSize + 1) div 2)))
      else Some (hashlist ! 0 = match))"
  by pat_completeness auto
termination
  by (relation "measure (\<lambda>(H, hashlist, match, stepCount, lastMax, rowSize). rowSize)") auto

definition merkleRootMatches :: "crypto \<Rightarrow> byte list list \<Rightarrow> byte list \<Rightarrow> bool option" where
  "merkleRootMatches H hashlist match =
     (if hashlist = [] then None
      else merkle_rows H hashlist match 1 (length hashlist - 1) (length hashlist))"

text \<open>\<open>MerkleTreeBuilder(tx_count)\<close>: \<open>tx_count\<close> zeroed slots.\<close>

definition MerkleTreeBuilder :: "nat \<Rightarrow> byte list list" where
  "MerkleTreeBuilder tx_count = replicate tx_count (replicate 32 0)"


section \<open>Cursor reads on a block\<close>

text \<open>
  The read cursor \<open>readit\<close> is its offset into \<open>block\<close>. Modelled from the spec:
  \<open>move_forward\<close> and \<open>read_varint\<close> are not in the source file. \<open>move_forward\<close>
  advances by \<open>n\<close> and throws \<open>read_exception\<close> (\<open>None\<close>) when the cursor would
  overrun the end; \<open>read_varint\<close> consumes 1, 3, 5 or 9 bytes (a first byte below
  \<open>0xfd\<close> is the value, \<open>0xfd\<close>, \<open>0xfe\<close> and \<open>0xff\<close> announce a little-endian
  16-, 32- and 64-bit value) and throws likewise.
\<close>

definition move_forward :: "byte list \<Rightarrow> nat \<Rightarrow> nat \<Rightarrow> nat option" where
  "move_forward block readit n =
     (if readit + n \<le> length block then Some (readit + n) else None)"

definition read_varint :: "byte list \<Rightarrow> nat \<Rightarrow> (nat \<times> nat) option" where
  "read_varint block readit =
     (case move_forward block readit 1 of
        None \<Rightarrow> None
      | Some r1 \<Rightarrow>
          let first = block ! readit;
              width = (if first < 0xfd then 0 else if first = 0xfd then 2
                       else if first = 0xfe then 4 else 8)
          in if width = 0 then Some (unat first, r1)
             else (case move_forward block r1 width of
                     None \<Rightarrow> None
                   | Some r2 \<Rightarrow> Some (le_nat (take width (drop r1 block)), r2)))"

text \<open>
  Modelled from the spec: \<open>varint\<close>, the writer, is the inverse of \<open>read_varint\<close>
  with the shortest encoding.
\<close>

definition varint :: "nat \<Rightarrow> byte list" where
  "varint n =
     (if n < 0xfd then [of_nat n]
      else if n \<le> 0xffff then 0xfd # le_bytes 2 n
      else if n \<le> 0xffffffff then 0xfe # le_bytes 4 n
      else 0xff # le_bytes 8 n)"

text \<open>
  The two inner loops of \<open>maybe_compress_block\<close> over the inputs and the outputs of a
  transaction, by the number of rounds left. \<open>read_varint(...) + 4\<close> is a \<open>uint64_t\<close>
  sum and wraps.
\<close>

fun skip_txins :: "byte list \<Rightarrow> nat \<Rightarrow> nat \<Rightarrow> nat option" where
  "skip_txins block 0 readit = Some readit"
| "skip_txins block (Suc j) readit =
     do {
       r1 \<leftarrow> move_forward block readit 36;
       (len, r2) \<leftarrow> read_varint block r1;
       r3 \<leftarrow> move_forward block r2 ((len + 4) mod 2 ^ 64);
       skip_txins block j r3
     }"

fun skip_txouts :: "byte list \<Rightarrow> nat \<Rightarrow> nat \<Rightarrow> nat option" where
  "skip_txouts block 0 readit = Some readit"
| "skip_txouts block (Suc j) readit =
     do {
       r1 \<leftarrow> move_forward block readit 8;
       (len, r2) \<leftarrow> read_varint block r1;
       r3 \<leftarrow> move_forward block r2 len;
       skip_txouts block j r3
     }"

text \<open>One transaction: from \<open>txstart\<close> to the cursor after its lock time.\<close>

definition skip_tx :: "byte list \<Rightarrow> nat \<Rightarrow> nat option" where
  "skip_tx block txstart =
     do {
       r1 \<leftarrow> move_forward block txstart 4;
       (txins, r2) \<leftarrow> read_varint block r1;
       r3 \<leftarrow> skip_txins block txins r2;
       (txouts, r4) \<leftarrow> read_varint block r3;
       r5 \<leftarrow> skip_txouts block txouts r4;
       move_forward block r5 4
     }"

section \<open>Compression\<close>

text \<open>The work test on a 32-byte hash: one of the bytes 25 to 31 is not zero.\<close>

definition nonzero_top :: "byte list \<Rightarrow> bool" where
  "nonzero_top hash \<longleftrightarrow>
     hash ! 31 \<noteq> 0 \<or> hash ! 30 \<noteq> 0 \<or> hash ! 29 \<noteq> 0 \<or> hash ! 28 \<noteq> 0 \<or>
     hash ! 27 \<noteq> 0 \<or> hash ! 26 \<noteq> 0 \<or> hash ! 25 \<noteq> 0"

text \<open>
  \<open>int32_t block_version\<close> from the four bytes of the version field, lowest byte
  first: a value from \<open>2^31\<close> on reads as negative.
\<close>

definition block_version :: "byte list \<Rightarrow> int" where
  "block_version bs =
     (let v = le_nat (take 4 bs)
      in if v < 2 ^ 31 then int v else int v - 2 ^ 32)"

text \<open>What the loop body appends to \<open>compressed_block\<close> for one transaction.\<close>

definition emit_tx :: "int \<Rightarrow> byte list \<Rightarrow> byte list" where
  "emit_tx ind tx =
     (if ind < 0 then
        (let txlen = length tx mod 2 ^ 32
         in [0xff, 0xff, of_nat (txlen div 65536 mod 256), of_nat (txlen div 256 mod 256),
             of_nat (txlen mod 256)] @ tx)
      else [of_nat (nat ind div 256 mod 256), of_nat (nat ind mod 256)])"

text \<open>
  The body of the loop over the transactions of the block, for the transaction number
  \<open>i\<close> that starts at the cursor. The result is the send cache and, unless a read
  threw, the cursor, the Merkle slots and the output after the body.
\<close>

definition compress_tx ::
  "crypto \<Rightarrow> byte list \<Rightarrow> bool \<Rightarrow> nat \<Rightarrow> nat \<Rightarrow> TxCache \<Rightarrow> byte list list \<Rightarrow> byte list
   \<Rightarrow> TxCache \<times> (nat \<times> byte list list \<times> byte list) option" where
  "compress_tx H blk cm i readit cache merkle compressed_block =
     (case skip_tx blk readit of
        None \<Rightarrow> (cache, None)
      | Some readit' \<Rightarrow>
          let tx = take (readit' - readit) (drop readit blk);
              (ind, cache') = remove_tx cache tx;
              merkle' = (if cm then merkle[i := double_sha256 H tx] else merkle)
          in (cache', Some (readit', merkle', compressed_block @ emit_tx ind tx)))"

text \<open>
  The loop itself. Entries removed from the send cache stay removed when a later read
  throws.
\<close>

function compress_txs ::
  "crypto \<Rightarrow> byte list \<Rightarrow> bool \<Rightarrow> nat \<Rightarrow> nat \<Rightarrow> nat \<Rightarrow> TxCache \<Rightarrow> byte list list \<Rightarrow> byte list
   \<Rightarrow> TxCache \<times> (nat \<times> byte list list \<times> byte list) option" where
  "compress_txs H blk cm txcount i readit cache merkle compressed_block =
     (if i < txcount then
        (case compress_tx H blk cm i readit cache merkle compressed_block of
           (cache', None) \<Rightarrow> (cache', None)
         | (cache', Some (readit', merkle', compressed_block')) \<Rightarrow>
             compress_txs H blk cm txcount (i + 1) readit' cache' merkle' compressed_block')
      else (cache, Some (readit, merkle, compressed_block)))"
  by pat_completeness auto
termination
  by (relation "measure (\<lambda>(H, blk, cm, txcount, i, rest). txcount - i)") auto

text \<open>
  The \<open>try\<close> block of \<open>maybe_compress_block\<close>: \<open>Inl tag\<close> when it returns or
  catches with an error tag, \<open>Inr compressed_block\<close> when it runs through.
\<close>

definition compress_try ::
  "crypto \<Rightarrow> constants \<Rightarrow> TxCache \<Rightarrow> byte list \<Rightarrow> bool \<Rightarrow> (TxCache \<times> (string + byte list)) option" where
  "compress_try H K cache block check_merkle =
     (case do { r0 \<leftarrow> move_forward block 0 bitcoin_msg_header_size; move_forward block r0 4 } of
        None \<Rightarrow> Some (cache, Inl ''INVALID_SIZE'')
      | Some r1 \<Rightarrow>
          if \<not> TEST_DATA K \<and> block_version (drop (r1 - 4) block) < 4
          then Some (cache, Inl ''SMALL_VERSION'')
          else
            (case do {
                    merkle_hash_it \<leftarrow> move_forward block r1 32;
                    r2 \<leftarrow> move_forward block merkle_hash_it (80 - (4 + 32));
                    (txcount, r3) \<leftarrow> read_varint block r2;
                    Some (merkle_hash_it, txcount, r3)
                  } of
               None \<Rightarrow> Some (cache, Inl ''INVALID_SIZE'')
             | Some (merkle_hash_it, txcount, readit) \<Rightarrow>
                 if txcount < 1 \<or> txcount > 100000 then Some (cache, Inl ''TXCOUNT_RANGE'')
                 else
                   let compressed_block =
                         RELAY_MAGIC_BYTES K @ BLOCK_TYPE K @ htonl_bytes txcount @
                         take 80 (drop bitcoin_msg_header_size block);
                       merkleTree = MerkleTreeBuilder (if check_merkle then txcount else 0)
                   in (case compress_txs H block check_merkle txcount 0 readit cache merkleTree
                              compressed_block of
                         (cache', None) \<Rightarrow> Some (cache', Inl ''INVALID_SIZE'')
                       | (cache', Some (readit', merkleTree', compressed_block')) \<Rightarrow>
                           if check_merkle then
                             (case merkleRootMatches H merkleTree'
                                     (take 32 (drop merkle_hash_it block)) of
                                None \<Rightarrow> None
                              | Some ok \<Rightarrow>
                                  if \<not> ok then Some (cache', Inl ''INVALID_MERKLE'')
                                  else Some (cache', Inr compressed_block'))
                           else Some (cache', Inr compressed_block'))))"

text \<open>
  \<open>maybe_compress_block\<close>. The result pairs the returned tuple (the vector, \<open>None\<close>
  for the empty pointer, and the error tag, \<open>None\<close> for \<open>NULL\<close>) with the node after
  the call. \<open>hash[31]\<close> of a hash shorter than 32 bytes is a read outside the vector.
\<close>

definition maybe_compress_block ::
  "crypto \<Rightarrow> constants \<Rightarrow> RelayNodeCompressor \<Rightarrow> byte list \<Rightarrow> byte list \<Rightarrow> bool
   \<Rightarrow> ((byte list option \<times> string option) \<times> RelayNodeCompressor) option" where
  "maybe_compress_block H K s hash block check_merkle =
     (if check_merkle \<and> length hash < 32 then None
      else if check_merkle \<and> nonzero_top hash then Some ((None, Some ''BAD_WORK''), s)
      else if hash \<in> blocksAlreadySeen s then Some ((None, Some ''SEEN''), s)
      else
        (case compress_try H K (send_tx_cache s) block check_merkle of
           None \<Rightarrow> None
         | Some (cache', Inl tag) \<Rightarrow> Some ((Some [], Some tag), s\<lparr>send_tx_cache := cache'\<rparr>)
         | Some (cache', Inr compressed_block) \<Rightarrow>
             if hash \<in> blocksAlreadySeen s
             then Some ((None, Some ''MUTEX_BROKEN???''), s\<lparr>send_tx_cache := cache'\<rparr>)
             else Some ((Some compressed_block, None),
                        s\<lparr>send_tx_cache := cache',
                          blocksAlreadySeen := insert hash (blocksAlreadySeen s)\<rparr>)))"


section \<open>The index rewrite: \<open>tweak_sort\<close>\<close>

text \<open>
  \<open>struct IndexVector { uint16_t index; vector data; }\<close> holds one transaction of
  the block being rebuilt; \<open>struct IndexPtr { uint16_t index; size_t pos; }\<close> is a
  cache reference: \<open>index\<close> as it came over the wire and \<open>pos\<close> the transaction's
  place in the block. \<open>size_t\<close> values are positions in vectors held in memory; they
  are natural numbers here.
\<close>

record IndexVector =
  index :: "16 word"
  data :: "byte list"

record IndexPtr =
  index :: "16 word"
  pos :: nat

text \<open>
  The merge loop of \<open>tweak_sort\<close> (the \<open>for\<close> over \<open>i\<close>), on the vector itself.
  The test \<open>left[j].index - (k - split) <= ptrs[k].index\<close> is evaluated in
  \<open>size_t\<close> (the \<open>uint16_t\<close> is promoted, the difference wraps modulo \<open>2^64\<close>);
  the update \<open>ptrs[i].index -= (k - split)\<close> is stored back into 16 bits.
\<close>

function merge_loop ::
  "IndexPtr list \<Rightarrow> IndexPtr list \<Rightarrow> nat \<Rightarrow> nat \<Rightarrow> nat \<Rightarrow> nat \<Rightarrow> nat \<Rightarrow> IndexPtr list" where
  "merge_loop ptrs left split endi i j k =
     (if i < endi then
        (if j < length left \<and>
            (k \<ge> endi \<or>
             (ucast (IndexPtr.index (left ! j)) - word_of_nat (k - split) :: 64 word)
               \<le> ucast (IndexPtr.index (ptrs ! k)))
         then merge_loop
                (ptrs[i := (left ! j)\<lparr>IndexPtr.index :=
                              IndexPtr.index (left ! j) - word_of_nat (k - split)\<rparr>])
                left split endi (i + 1) (j + 1) k
         else merge_loop (ptrs[i := ptrs ! k]) left split endi (i + 1) j (k + 1))
      else ptrs)"
  by pat_completeness auto
termination
  by (relation "measure (\<lambda>(ptrs, left, split, endi, i, j, k). endi - i)") auto

text \<open>
  \<open>tweak_sort(ptrs, start, end)\<close>, called with \<open>end \<le> ptrs.size()\<close>. \<open>left\<close> is the
  copy \<open>vector(ptrs.begin() + start, ptrs.begin() + split)\<close> taken after both halves
  are sorted.
\<close>

function tweak_sort :: "IndexPtr list \<Rightarrow> nat \<Rightarrow> nat \<Rightarrow> IndexPtr list" where
  "tweak_sort ptrs start endi =
     (if start + 1 \<ge> endi then ptrs
      else
        let split = (endi - start) div 2 + start;
            ptrs1 = tweak_sort ptrs start split;
            ptrs2 = tweak_sort ptrs1 split endi;
            left = take (split - start) (drop start ptrs2)
        in merge_loop ptrs2 left split endi start 0 split)"
  by pat_completeness auto
termination
  by (relation "measure (\<lambda>(ptrs, start, endi). endi - start)") auto

section \<open>Decompression\<close>

text \<open>
  The callback \<open>read_all\<close> is modelled by the bytes it still has to serve: a call for
  \<open>n\<close> bytes returns them and moves on, or comes back short (\<open>None\<close>) when fewer
  than \<open>n\<close> bytes are left.
\<close>

definition read_all :: "byte list \<Rightarrow> nat \<Rightarrow> (byte list \<times> byte list) option" where
  "read_all rd n = (if n \<le> length rd then Some (take n rd, drop n rd) else None)"

text \<open>
  Modelled from the spec: \<open>getblockhash\<close> is not in the source file; it is the
  double-SHA-256 of the 80-byte header that starts at \<open>offset\<close>.
\<close>

definition getblockhash :: "crypto \<Rightarrow> byte list \<Rightarrow> nat \<Rightarrow> byte list" where
  "getblockhash H block offset = double_sha256 H (take 80 (drop offset block))"

record DecompressState =
  check_merkle :: bool
  tx_count :: nat
  wire_bytes :: "32 word"
  block :: "byte list"
  fullhashptr :: "byte list"
  merkleTree :: "byte list list"
  txn_data :: "IndexVector list"
  txn_ptrs :: "IndexPtr list"

text \<open>The constructor \<open>DecompressState(check_merkle_in, tx_count_in)\<close>.\<close>

definition DecompressState_init :: "bool \<Rightarrow> nat \<Rightarrow> DecompressState" where
  "DecompressState_init check_merkle_in tx_count_in =
     \<lparr>check_merkle = check_merkle_in, tx_count = tx_count_in, wire_bytes = 4 * 3,
      block = replicate (bitcoin_msg_header_size + 80) 0,
      fullhashptr = replicate 32 0,
      merkleTree = MerkleTreeBuilder (if check_merkle_in then tx_count_in else 1),
      txn_data = replicate tx_count_in \<lparr>IndexVector.index = 0, data = []\<rparr>,
      txn_ptrs = []\<rparr>"

text \<open>
  The body of the first loop of \<open>do_decompress\<close>: it reads the wire entry of
  transaction \<open>i\<close>. The result is the error message (\<open>None\<close> when the body ran
  through), the state and the reader.
\<close>

definition read_tx ::
  "crypto \<Rightarrow> DecompressState \<Rightarrow> byte list \<Rightarrow> nat \<Rightarrow> string option \<times> DecompressState \<times> byte list" where
  "read_tx H state rd i =
     (case read_all rd 2 of
        None \<Rightarrow> (Some ''failed to read tx index'', state, rd)
      | Some (ib, rd1) \<Rightarrow>
          let ind = (word_of_nat (be_nat ib) :: 16 word);
              state1 = state\<lparr>wire_bytes := wire_bytes state + 2,
                         txn_data := (txn_data state)
                           [i := (txn_data state ! i)\<lparr>IndexVector.index := ind\<rparr>]\<rparr>
          in if ind = 0xffff then
               (case read_all rd1 3 of
                  None \<Rightarrow> (Some ''failed to read tx length'', state1, rd1)
                | Some (sb, rd2) \<Rightarrow>
                    let tx_size = be_nat sb
                    in if tx_size > 1000000
                       then (Some ''got unreasonably large tx'', state1, rd2)
                       else
                         (case read_all rd2 tx_size of
                            None \<Rightarrow> (Some ''failed to read transaction data'', state1, rd2)
                          | Some (d, rd3) \<Rightarrow>
                              (None,
                               state1\<lparr>
                                 txn_data := (txn_data state1)
                                   [i := (txn_data state1 ! i)\<lparr>data := d\<rparr>],
                                 wire_bytes := wire_bytes state1 + 3 + word_of_nat tx_size,
                                 merkleTree :=
                                   (if check_merkle state1
                                    then (merkleTree state1)[i := double_sha256 H d]
                                    else merkleTree state1)\<rparr>,
                               rd3)))
             else
               (None,
                state1\<lparr>txn_ptrs := txn_ptrs state1 @ [\<lparr>IndexPtr.index = ind, pos = i\<rparr>]\<rparr>,
                rd1))"

text \<open>The loop: \<open>for (uint32_t i = 0; i < state.tx_count; i++)\<close>, from \<open>i\<close> on.\<close>

function read_txs ::
  "crypto \<Rightarrow> nat \<Rightarrow> DecompressState \<Rightarrow> byte list \<Rightarrow> nat
   \<Rightarrow> string option \<times> DecompressState \<times> byte list" where
  "read_txs H n state rd i =
     (if i < n then
        (case read_tx H state rd i of
           (Some e, state', rd') \<Rightarrow> (Some e, state', rd')
         | (None, state', rd') \<Rightarrow> read_txs H n state' rd' (i + 1))
      else (None, state, rd))"
  by pat_completeness auto
termination
  by (relation "measure (\<lambda>(H, n, state, rd, i). n - i)") auto

text \<open>
  The body of the second loop, for the sorted pointer \<open>ptr\<close>: it takes the
  referenced transaction out of the receive cache. \<open>last_index\<close> is the variable
  \<open>last\<close> of the \<open>assert\<close> at the head of the body; a failed assertion is \<open>None\<close>.
\<close>

definition fetch_tx ::
  "crypto \<Rightarrow> DecompressState \<Rightarrow> TxCache \<Rightarrow> int \<Rightarrow> IndexPtr
   \<Rightarrow> (string option \<times> DecompressState \<times> TxCache) option" where
  "fetch_tx H state cache last_index ptr =
     (if \<not> (last_index \<le> int (unat (IndexPtr.index ptr))) then None
      else
        (case remove_at H cache (unat (IndexPtr.index ptr)) of
           None \<Rightarrow> Some (Some ''failed to find referenced transaction'', state, cache)
         | Some (blob, h, cache') \<Rightarrow>
             Some (None,
                   state\<lparr>
                     txn_data := (txn_data state)
                       [pos ptr := (txn_data state ! pos ptr)\<lparr>data := blob\<rparr>],
                     merkleTree := (merkleTree state)
                       [(if check_merkle state then pos ptr else 0) := h]\<rparr>,
                   cache')))"

text \<open>
  The loop \<open>for (size_t i = 0; i < state.txn_ptrs.size(); i++)\<close>, from \<open>i\<close> on;
  \<open>ptrs\<close> is \<open>state.txn_ptrs\<close>, which the body leaves as it is.
\<close>

function fetch_txs ::
  "crypto \<Rightarrow> IndexPtr list \<Rightarrow> DecompressState \<Rightarrow> TxCache \<Rightarrow> int \<Rightarrow> nat
   \<Rightarrow> (string option \<times> DecompressState \<times> TxCache) option" where
  "fetch_txs H ptrs state cache last_index i =
     (if i < length ptrs then
        (case fetch_tx H state cache last_index (ptrs ! i) of
           None \<Rightarrow> None
         | Some (Some e, state', cache') \<Rightarrow> Some (Some e, state', cache')
         | Some (None, state', cache') \<Rightarrow>
             fetch_txs H ptrs state' cache' (int (unat (IndexPtr.index (ptrs ! i)))) (i + 1))
      else Some (None, state, cache))"
  by pat_completeness auto
termination
  by (relation "measure (\<lambda>(H, ptrs, state, cache, last_index, i). length ptrs - i)") auto

text \<open>
  \<open>do_decompress\<close>: the error message (\<open>None\<close> for \<open>NULL\<close>), the state, the node
  and the reader after the call; \<open>None\<close> when the call does not return.
\<close>

definition do_decompress ::
  "crypto \<Rightarrow> constants \<Rightarrow> RelayNodeCompressor \<Rightarrow> DecompressState \<Rightarrow> byte list
   \<Rightarrow> (string option \<times> DecompressState \<times> RelayNodeCompressor \<times> byte list) option" where
  "do_decompress H K s state rd =
     (case read_all rd 80 of
        None \<Rightarrow> Some (Some ''failed to read block header'', state, s, rd)
      | Some (hdr, rd1) \<Rightarrow>
          let state1 = state\<lparr>block := take bitcoin_msg_header_size (block state) @ hdr @
                                        drop (bitcoin_msg_header_size + 80) (block state)\<rparr>
          in if \<not> TEST_DATA K \<and>
                block_version (drop bitcoin_msg_header_size (block state1)) < 4
             then Some (Some ''block had version < 4'', state1, s, rd1)
             else
               let fullhash = getblockhash H (block state1) bitcoin_msg_header_size;
                   state2 = state1\<lparr>fullhashptr := fullhash\<rparr>;
                   s1 = s\<lparr>blocksAlreadySeen := insert fullhash (blocksAlreadySeen s)\<rparr>
               in if check_merkle state2 \<and> nonzero_top fullhash
                  then Some (Some ''block hash did not meet minimum difficulty target'',
                             state2, s1, rd1)
                  else
                    let state3 = state2\<lparr>block := block state2 @ varint (tx_count state2)\<rparr>
                    in (case read_txs H (tx_count state3) state3 rd1 0 of
                          (Some e, state4, rd2) \<Rightarrow> Some (Some e, state4, s1, rd2)
                        | (None, state4, rd2) \<Rightarrow>
                            let state5 = state4\<lparr>txn_ptrs :=
                                  tweak_sort (txn_ptrs state4) 0 (length (txn_ptrs state4))\<rparr>
                            in (case fetch_txs H (txn_ptrs state5) state5 (recv_tx_cache s1) (- 1) 0 of
                                  None \<Rightarrow> None
                                | Some (Some e, state6, cache') \<Rightarrow>
                                    Some (Some e, state6, s1\<lparr>recv_tx_cache := cache'\<rparr>, rd2)
                                | Some (None, state6, cache') \<Rightarrow>
                                    let state7 = state6\<lparr>block := block state6 @
                                          concat (map data (txn_data state6))\<rparr>;
                                        s2 = s1\<lparr>recv_tx_cache := cache'\<rparr>
                                    in if check_merkle state7 then
                                         (case merkleRootMatches H (merkleTree state7)
                                                 (take 32 (drop (4 + 32 + bitcoin_msg_header_size)
                                                    (block state7))) of
                                            None \<Rightarrow> None
                                          | Some ok \<Rightarrow>
                                              if \<not> ok
                                              then Some (Some ''merkle tree root did not match'',
                                                         state7, s2, rd2)
                                              else Some (None, state7, s2, rd2))
                                       else Some (None, state7, s2, rd2))))"

text \<open>
  \<open>decompress_relay_block\<close>: the returned tuple (wire bytes, block, error message,
  block hash), the node and the reader after the call.
\<close>

definition decompress_relay_block ::
  "crypto \<Rightarrow> constants \<Rightarrow> RelayNodeCompressor \<Rightarrow> byte list \<Rightarrow> 32 word \<Rightarrow> bool
   \<Rightarrow> ((32 word \<times> byte list option \<times> string option \<times> byte list option)
        \<times> RelayNodeCompressor \<times> byte list) option" where
  "decompress_relay_block H K s rd message_size check_merkle_in =
     (if message_size > 100000
      then Some ((0, None, Some ''got a BLOCK message with far too many transactions'', None),
                 s, rd)
      else
        (case do_decompress H K s (DecompressState_init check_merkle_in (unat message_size)) rd of
           None \<Rightarrow> None
         | Some (Some err, state, s', rd') \<Rightarrow> Some ((0, None, Some err, None), s', rd')
         | Some (None, state, s', rd') \<Rightarrow>
             Some ((wire_bytes state, Some (block state), None, Some (fullhashptr state)),
                   s', rd')))"


section \<open>The reference Merkle root\<close>

text \<open>
  The reference formulation of the Merkle root, independent of the buffer: \<open>pair_row\<close>
  hashes a row pairwise in order, an odd row pairing its last element with itself;
  \<open>merkle_fold\<close> repeats it down to a single hash. \<open>duplicate_sibling\<close> tells whether
  some row of the fold with more than one element ends in two equal hashes.
  \<open>strided hl stp n\<close> is the row the buffer holds at the slots \<open>0, stp, 2 stp, ...\<close>.
\<close>

fun pair_row :: "crypto \<Rightarrow> byte list list \<Rightarrow> byte list list" where
  "pair_row H [] = []"
| "pair_row H [a] = [double_sha256_two_32_inputs H a a]"
| "pair_row H (a # b # xs) = double_sha256_two_32_inputs H a b # pair_row H xs"


lemma length_pair_row [simp]: "length (pair_row H row) = (length row + 1) div 2"
  by (induction H row rule: pair_row.induct) auto


function merkle_fold :: "crypto \<Rightarrow> byte list list \<Rightarrow> byte list" where
  "merkle_fold H row = (if length row \<le> 1 then row ! 0 else merkle_fold H (pair_row H row))"
  by pat_completeness auto
termination
  by (relation "measure (\<lambda>(H, row). length row)") auto

function duplicate_sibling :: "crypto \<Rightarrow> byte list list \<Rightarrow> bool" where
  "duplicate_sibling H row =
     (if length row \<le> 1 then False
      else row ! (length row - 2) = row ! (length row - 1) \<or>
           duplicate_sibling H (pair_row H row))"
  by pat_completeness auto
termination
  by (relation "measure (\<lambda>(H, row). length row)") auto


definition strided :: "byte list list \<Rightarrow> nat \<Rightarrow> nat \<Rightarrow> byte list list" where
  "strided hl stp n = map (\<lambda>i. hl ! (i * stp)) [0..<n]"

section \<open>Example data\<close>

text \<open>
  Concrete inputs for the evaluated examples: a stand-in for the external hash primitives
  (its last 31 bytes are zero, so every hash passes the work test), a set of constants,
  and a list of cache references.
\<close>

definition toy_hash :: "byte list \<Rightarrow> byte list" where
  "toy_hash x = of_nat (sum_list (map unat x) + length x) # replicate 31 0"

definition toy :: crypto where
  "toy = \<lparr>double_sha256 = toy_hash,
          double_sha256_two_32_inputs = (\<lambda>a b. toy_hash (a @ b))\<rparr>"

definition K0 :: constants where
  "K0 = \<lparr>RELAY_MAGIC_BYTES = [1, 2, 3, 4], BLOCK_TYPE = [0, 0, 0, 1],
         TRANSACTION_TYPE = [0, 0, 0, 2],
         MAX_RELAY_TRANSACTION_BYTES = 10000, OLD_MAX_RELAY_TRANSACTION_BYTES = 100,
         OLD_MAX_EXTRA_OVERSIZE_TRANSACTIONS = 1,
         OLD_MAX_RELAY_OVERSIZE_TRANSACTION_BYTES = 1000, TEST_DATA = False\<rparr>"

definition mk_ptrs :: "(nat \<times> nat) list \<Rightarrow> IndexPtr list" where
  "mk_ptrs xs = map (\<lambda>(a, p). \<lparr>IndexPtr.index = of_nat a, pos = p\<rparr>) xs"

definition bad_hash :: "byte list" where
  "bad_hash = replicate 31 0 @ [1]"

definition sample_tx :: "nat \<Rightarrow> byte list" where
  "sample_tx n = [of_nat n, 0, 0, 0, 0, 0, 0, 0, 0, 0]"

definition sample_header :: "byte list" where
  "sample_header = [4, 0, 0, 0] @ replicate 76 0"

definition sample_cache :: "byte list list \<Rightarrow> TxCache" where
  "sample_cache bs = \<lparr>entries = map (\<lambda>b. (b, Cost (length b))) bs, capacity = 1000\<rparr>"

definition sample_node :: "byte list list \<Rightarrow> byte list list \<Rightarrow> byte list set \<Rightarrow> RelayNodeCompressor" where
  "sample_node sent received seen =
     \<lparr>useOldFlags = False, send_tx_cache = sample_cache sent,
      recv_tx_cache = sample_cache received, blocksAlreadySeen = seen\<rparr>"

definition sample_block :: "byte list list \<Rightarrow> byte list" where
  "sample_block txs = replicate 24 0 @ sample_header @ varint (length txs) @ concat txs"

definition old_node :: RelayNodeCompressor where
  "old_node = \<lparr>useOldFlags = True,
       send_tx_cache = \<lparr>entries = [(replicate 500 1, Oversize True)], capacity = 1000\<rparr>,
       recv_tx_cache = \<lparr>entries = [], capacity = 1000\<rparr>, blocksAlreadySeen = {}\<rparr>"

section \<open>Auxiliary definitions\<close>

text \<open>
  The merge of \<open>tweak_sort\<close> read as a function on two lists: \<open>c\<close> counts the
  elements already taken from the right half (\<open>k - split\<close>), \<open>takes_left\<close> is the
  loop's test and \<open>lowered\<close> its update. \<open>tsort\<close> is the sort of a whole list.
  The proofs relate them to the loop on the vector.
\<close>

definition takes_left :: "IndexPtr \<Rightarrow> nat \<Rightarrow> IndexPtr \<Rightarrow> bool" where
  "takes_left l c r \<longleftrightarrow> (ucast (IndexPtr.index l) - word_of_nat c :: 64 word) \<le> ucast (IndexPtr.index r)"

definition lowered :: "IndexPtr \<Rightarrow> nat \<Rightarrow> IndexPtr" where
  "lowered l c = l\<lparr>IndexPtr.index := IndexPtr.index l - word_of_nat c\<rparr>"

fun tmerge :: "nat \<Rightarrow> IndexPtr list \<Rightarrow> IndexPtr list \<Rightarrow> IndexPtr list" where
  "tmerge c [] rs = rs"
| "tmerge c (l # ls) [] = lowered l c # tmerge c ls []"
| "tmerge c (l # ls) (r # rs) =
     (if takes_left l c r then lowered l c # tmerge c ls (r # rs)
      else r # tmerge (Suc c) (l # ls) rs)"

function tsort :: "IndexPtr list \<Rightarrow> IndexPtr list" where
  "tsort xs =
     (if length xs \<le> 1 then xs
      else tmerge 0 (tsort (take (length xs div 2) xs)) (tsort (drop (length xs div 2) xs)))"
  by pat_completeness auto
termination
  by (relation "measure length") auto

abbreviation idx :: "IndexPtr \<Rightarrow> nat" where "idx x \<equiv> unat (IndexPtr.index x)"


text \<open>
  What a caller observes of \<open>decompress_relay_block\<close> apart from the set of seen
  blocks; the receive path after the block hash is stored, and the state in which it
  starts; the messages of the read loop.
\<close>

definition outcome ::
  "((32 word \<times> byte list option \<times> string option \<times> byte list option)
     \<times> RelayNodeCompressor \<times> byte list) option
   \<Rightarrow> ((32 word \<times> byte list option \<times> string option \<times> byte list option)
        \<times> TxCache \<times> TxCache \<times> byte list) option" where
  "outcome r = map_option (\<lambda>(t, s', rd'). (t, send_tx_cache s', recv_tx_cache s', rd')) r"


definition decompress_rest ::
  "crypto \<Rightarrow> RelayNodeCompressor \<Rightarrow> DecompressState \<Rightarrow> byte list
   \<Rightarrow> (string option \<times> DecompressState \<times> RelayNodeCompressor \<times> byte list) option" where
  "decompress_rest H s1 state3 rd1 =
     (case read_txs H (tx_count state3) state3 rd1 0 of
        (Some e, state4, rd2) \<Rightarrow> Some (Some e, state4, s1, rd2)
      | (None, state4, rd2) \<Rightarrow>
          let state5 = state4\<lparr>txn_ptrs :=
                tweak_sort (txn_ptrs state4) 0 (length (txn_ptrs state4))\<rparr>
          in (case fetch_txs H (txn_ptrs state5) state5 (recv_tx_cache s1) (- 1) 0 of
                None \<Rightarrow> None
              | Some (Some e, state6, cache') \<Rightarrow>
                  Some (Some e, state6, s1\<lparr>recv_tx_cache := cache'\<rparr>, rd2)
              | Some (None, state6, cache') \<Rightarrow>
                  let state7 = state6\<lparr>block := block state6 @
                        concat (map data (txn_data state6))\<rparr>;
                      s2 = s1\<lparr>recv_tx_cache := cache'\<rparr>
                  in if check_merkle state7 then
                       (case merkleRootMatches H (merkleTree state7)
                               (take 32 (drop (4 + 32 + bitcoin_msg_header_size)
                                  (block state7))) of
                          None \<Rightarrow> None
                        | Some ok \<Rightarrow>
                            if \<not> ok
                            then Some (Some ''merkle tree root did not match'',
                                       state7, s2, rd2)
                            else Some (None, state7, s2, rd2))
                     else Some (None, state7, s2, rd2)))"

definition header_state :: "crypto \<Rightarrow> DecompressState \<Rightarrow> byte list \<Rightarrow> DecompressState" where
  "header_state H st hdr =
     st\<lparr>block := take bitcoin_msg_header_size (block st) @ hdr @
                  drop (bitcoin_msg_header_size + 80) (block st),
        fullhashptr := getblockhash H
           (take bitcoin_msg_header_size (block st) @ hdr @
                  drop (bitcoin_msg_header_size + 80) (block st)) bitcoin_msg_header_size\<rparr>"


definition read_errors :: "string set" where
  "read_errors = {''failed to read tx index'', ''failed to read tx length'',
     ''got unreasonably large tx'', ''failed to read transaction data''}"

section \<open>Reference formulations of the index rewrite\<close>

text \<open>
  \<open>takeout ptrs D\<close> replays a list of cache references on a cache \<open>D\<close>: each
  reference in turn takes out the entry at its index, which shifts the later entries
  down. The result pairs each position in the block with the entry taken for it, and
  gives the cache that is left; \<open>None\<close> when an index is out of range.
\<close>

fun takeout :: "IndexPtr list \<Rightarrow> 'a list \<Rightarrow> ((nat \<times> 'a) list \<times> 'a list) option" where
  "takeout [] D = Some ([], D)"
| "takeout (p # ps) D =
     (if idx p < length D
      then map_option (\<lambda>(A, D'). ((pos p, D ! idx p) # A, D')) (takeout ps (remove_nth (idx p) D))
      else None)"


text \<open>
  The formulation in the spec's words: sort the pairs by index ascending, stably, then
  subtract from each index the element's rank minus its count of equal-keyed
  predecessors.
\<close>

definition spec_tweak :: "IndexPtr list \<Rightarrow> IndexPtr list" where
  "spec_tweak ptrs =
     (let sorted_ptrs = sort_key idx ptrs
      in map (\<lambda>r. let x = sorted_ptrs ! r;
                      equal_before = length (filter (\<lambda>y. idx y = idx x) (take r sorted_ptrs))
                  in x\<lparr>IndexPtr.index := IndexPtr.index x - word_of_nat (r - equal_before)\<rparr>)
           [0..<length sorted_ptrs])"


text \<open>
  The formulation by original positions: replay the references in wire order on a cache
  whose entries are their own positions \<open>0, 1, 2, ...\<close> (long enough for every
  reference), which gives the original position of every reference; sort by original
  position; the adjusted index of an element is its original position minus its rank.
\<close>

definition numbered_cache :: "IndexPtr list \<Rightarrow> nat list" where
  "numbered_cache ptrs = [0..<fold max (map idx ptrs) 0 + length ptrs]"

definition origin_tweak :: "IndexPtr list \<Rightarrow> IndexPtr list" where
  "origin_tweak ptrs =
     (case takeout ptrs (numbered_cache ptrs) of
        None \<Rightarrow> []
      | Some (origins, rest) \<Rightarrow>
          map (\<lambda>(r, (p, origin)). \<lparr>IndexPtr.index = word_of_nat (origin - r), pos = p\<rparr>)
            (enumerate 0 (sort_key snd origins)))"

section \<open>Reference formulations of the receive path\<close>

text \<open>
  \<open>removals ptrs D\<close> is the cache content left by the removal loop of
  \<open>do_decompress\<close> (lines 334-340) when it is given the references \<open>ptrs\<close>: each
  reference in turn takes out the entry at its index; the first reference whose index is
  not in the cache stops the loop, and what was taken out before stays out.
\<close>

fun removals :: "IndexPtr list \<Rightarrow> 'a list \<Rightarrow> 'a list" where
  "removals [] D = D"
| "removals (p # ps) D =
     (if idx p < length D then removals ps (remove_nth (idx p) D) else D)"

text \<open>
  The state of \<open>do_decompress\<close> when it enters the read loop (line 297) on a stream
  \<open>rd\<close> for \<open>n\<close> transactions: the header is placed, the hash computed and the
  transaction count appended. \<open>wire_references\<close> is the list \<open>txn_ptrs\<close> the read
  loop collects from the rest of the stream.
\<close>

definition read_state :: "crypto \<Rightarrow> bool \<Rightarrow> nat \<Rightarrow> byte list \<Rightarrow> DecompressState" where
  "read_state H cm n rd =
     (let state2 = header_state H (DecompressState_init cm n) (take 80 rd)
      in state2\<lparr>block := block state2 @ varint n\<rparr>)"

definition wire_references :: "crypto \<Rightarrow> bool \<Rightarrow> nat \<Rightarrow> byte list \<Rightarrow> IndexPtr list" where
  "wire_references H cm n rd =
     txn_ptrs (fst (snd (read_txs H n (read_state H cm n rd) (drop 80 rd) 0)))"

text \<open>The two error messages that come after the removal loop has started.\<close>

definition late_errors :: "string set" where
  "late_errors = {''failed to find referenced transaction'', ''merkle tree root did not match''}"

section \<open>Reference formulation of the wire format\<close>

text \<open>
  The entries of a compressed block body as the spec words them: a two-byte big-endian
  index; for the index \<open>0xffff\<close> a three-byte big-endian size, at most 1,000,000,
  followed by that many bytes of transaction data. \<open>next_item\<close> parses one entry and
  gives the rest of the stream, \<open>wire_items n\<close> parses \<open>n\<close> entries.
\<close>

datatype wire_item = Reference nat | Inline nat

definition next_item :: "byte list \<Rightarrow> (wire_item \<times> byte list) option" where
  "next_item rd =
     (if length rd < 2 then None
      else if be_nat (take 2 rd) = 65535 then
        (if length rd < 5 then None
         else let tx_size = be_nat (take 3 (drop 2 rd))
              in if tx_size > 1000000 \<or> length rd < 5 + tx_size then None
                 else Some (Inline tx_size, drop (5 + tx_size) rd))
      else Some (Reference (be_nat (take 2 rd)), drop 2 rd))"

fun wire_items :: "nat \<Rightarrow> byte list \<Rightarrow> wire_item list option" where
  "wire_items 0 rd = Some []"
| "wire_items (Suc n) rd =
     (case next_item rd of
        None \<Rightarrow> None
      | Some (item, rd') \<Rightarrow> map_option (Cons item) (wire_items n rd'))"

text \<open>
  The bytes an entry takes on the wire, and the count the spec gives for a body: 12 for
  the relay message header plus the bytes of the entries.
\<close>

fun item_bytes :: "wire_item \<Rightarrow> nat" where
  "item_bytes (Reference k) = 2"
| "item_bytes (Inline tx_size) = 2 + (3 + tx_size)"

definition wire_count :: "wire_item list \<Rightarrow> nat" where
  "wire_count items = 12 + sum_list (map item_bytes items)"

text \<open>An inline entry of 1,000,000 zero bytes.\<close>

definition big_entry :: "byte list" where
  "big_entry = [0xff, 0xff, 0x0f, 0x42, 0x40] @ replicate 1000000 0"

text \<open>The cache references among the entries, with their positions in the block.\<close>

fun item_ptrs1 :: "nat \<Rightarrow> wire_item \<Rightarrow> IndexPtr list" where
  "item_ptrs1 i (Reference k) = [\<lparr>IndexPtr.index = word_of_nat k, pos = i\<rparr>]"
| "item_ptrs1 i (Inline tx_size) = []"

fun item_ptrs :: "nat \<Rightarrow> wire_item list \<Rightarrow> IndexPtr list" where
  "item_ptrs i [] = []"
| "item_ptrs i (item # items) = item_ptrs1 i item @ item_ptrs (Suc i) items"

section \<open>Properties of \<open>tweak_sort\<close>\<close>

declare tsort.simps [simp del]
declare merge_loop.simps [simp del]
declare tweak_sort.simps [simp del]

lemma length_tmerge: "length (tmerge c ls rs) = length ls + length rs"
  by (induction c ls rs rule: tmerge.induct) auto

lemma length_tsort: "length (tsort xs) = length xs"
proof (induction xs rule: tsort.induct)
  case (1 xs)
  show ?case
  proof (cases "length xs \<le> 1")
    case True
    then show ?thesis by (subst tsort.simps) simp
  next
    case False
    with 1 show ?thesis
      by (subst tsort.simps) (simp add: length_tmerge)
  qed
qed

lemma merge_loop_tmerge:
  assumes "split \<le> k" "k \<le> endi" "endi \<le> length ptrs" "j \<le> length left"
    and "i + (length left - j) = k"
  shows "merge_loop ptrs left split endi i j k =
         take i ptrs @ tmerge (k - split) (drop j left) (take (endi - k) (drop k ptrs)) @ drop endi ptrs"
  using assms
proof (induction ptrs left split endi i j k rule: merge_loop.induct)
  case (1 ptrs left split endi i j k)
  show ?case
  proof (cases "i < endi")
    case False
    with "1.prems" have "i = endi" "j = length left" "k = endi" by auto
    then show ?thesis using "1.prems" by (subst merge_loop.simps) simp
  next
    case ilt: True
    show ?thesis
    proof (cases "j < length left")
      case jlt: True
      then obtain l ls where dl: "drop j left = l # ls" and l: "l = left ! j" and ls: "ls = drop (Suc j) left"
        by (metis Cons_nth_drop_Suc)
      have ik: "i < k" using jlt "1.prems" by auto
      show ?thesis
      proof (cases "k \<ge> endi")
        case kge: True
        then have ke: "k = endi" using "1.prems" by auto
        have step: "merge_loop ptrs left split endi i j k =
              merge_loop (ptrs[i := lowered l (k - split)]) left split endi (i + 1) (j + 1) k"
          using ilt jlt kge by (subst merge_loop.simps) (simp add: lowered_def l)
        have IH: "merge_loop (ptrs[i := lowered l (k - split)]) left split endi (i + 1) (j + 1) k =
            take (i+1) (ptrs[i := lowered l (k - split)]) @
              tmerge (k - split) (drop (j+1) left) (take (endi - k) (drop k (ptrs[i := lowered l (k - split)])))
              @ drop endi (ptrs[i := lowered l (k - split)])"
          using "1.IH"(1)[OF ilt] jlt kge "1.prems" ilt by (simp add: lowered_def l)
        show ?thesis
          unfolding step IH using ke dl ls ilt "1.prems"
          by (simp add: take_Suc_conv_app_nth drop_update_cancel)
      next
        case klt: False
        then obtain r rs where dr: "take (endi - k) (drop k ptrs) = r # rs" and r: "r = ptrs ! k"
            and rs: "rs = take (endi - Suc k) (drop (Suc k) ptrs)"
          using "1.prems"
          by (metis Cons_nth_drop_Suc Suc_diff_Suc drop_Suc leI not_less_eq_eq order_less_le_trans take_Suc_Cons tl_drop)
        show ?thesis
        proof (cases "takes_left l (k - split) r")
          case True
          have step: "merge_loop ptrs left split endi i j k =
              merge_loop (ptrs[i := lowered l (k - split)]) left split endi (i + 1) (j + 1) k"
            using ilt jlt True by (subst merge_loop.simps) (simp add: lowered_def l r takes_left_def)
          have IH: "merge_loop (ptrs[i := lowered l (k - split)]) left split endi (i + 1) (j + 1) k =
            take (i+1) (ptrs[i := lowered l (k - split)]) @
              tmerge (k - split) (drop (j+1) left) (take (endi - k) (drop k (ptrs[i := lowered l (k - split)])))
              @ drop endi (ptrs[i := lowered l (k - split)])"
            using "1.IH"(1)[OF ilt] jlt True "1.prems" ilt by (simp add: lowered_def l r takes_left_def)
          show ?thesis
            unfolding step IH using dl dr ls ilt ik True "1.prems"
            by (simp add: take_Suc_conv_app_nth)
        next
          case False
          have step: "merge_loop ptrs left split endi i j k =
              merge_loop (ptrs[i := r]) left split endi (i + 1) j (k + 1)"
            using ilt jlt klt False by (subst merge_loop.simps) (simp add: l r takes_left_def)
          have IH: "merge_loop (ptrs[i := r]) left split endi (i + 1) j (k + 1) =
            take (i+1) (ptrs[i := r]) @
              tmerge (k + 1 - split) (drop j left) (take (endi - (k+1)) (drop (k+1) (ptrs[i := r])))
              @ drop endi (ptrs[i := r])"
            using "1.IH"(2)[OF ilt] jlt klt False "1.prems" ilt by (simp add: l r takes_left_def)
          show ?thesis
            unfolding step IH using dl dr rs ilt ik False klt "1.prems"
            by (simp add: take_Suc_conv_app_nth Suc_diff_le)
        qed
      qed
    next
      case jge: False
      then have je: "j = length left" and ik: "i = k" using "1.prems" by auto
      have klt: "k < endi" using ilt ik by simp
      then obtain r rs where dr: "take (endi - k) (drop k ptrs) = r # rs" and r: "r = ptrs ! k"
            and rs: "rs = take (endi - Suc k) (drop (Suc k) ptrs)"
        using "1.prems"
        by (metis Cons_nth_drop_Suc Suc_diff_Suc drop_Suc leI not_less_eq_eq order_less_le_trans take_Suc_Cons tl_drop)
      have step: "merge_loop ptrs left split endi i j k =
              merge_loop ptrs left split endi (i + 1) j (k + 1)"
        using ilt jge by (subst merge_loop.simps) (simp add: r ik)
      have IH: "merge_loop ptrs left split endi (i + 1) j (k + 1) =
            take (i+1) ptrs @
              tmerge (k + 1 - split) (drop j left) (take (endi - (k+1)) (drop (k+1) ptrs))
              @ drop endi ptrs"
        using "1.IH"(2)[OF ilt] jge klt "1.prems" ilt ik by (simp add: r)
      show ?thesis
        unfolding step IH using dr rs r je ik klt "1.prems"
        by (simp add: take_Suc_conv_app_nth)
    qed
  qed
qed


lemma tweak_sort_tsort:
  assumes "start \<le> endi" "endi \<le> length ptrs"
  shows "tweak_sort ptrs start endi =
         take start ptrs @ tsort (take (endi - start) (drop start ptrs)) @ drop endi ptrs"
  using assms
proof (induction ptrs start endi rule: tweak_sort.induct)
  case (1 ptrs start endi)
  define S where "S = take (endi - start) (drop start ptrs)"
  have lenS: "length S = endi - start" using "1.prems" by (simp add: S_def)
  show ?case
  proof (cases "start + 1 \<ge> endi")
    case True
    then have "length S \<le> 1" using lenS by simp
    then have "tsort S = S" by (subst tsort.simps) simp
    moreover have "take start ptrs @ S @ drop endi ptrs = ptrs"
      using "1.prems" unfolding S_def
      by (metis append_take_drop_id drop_drop le_add_diff_inverse2 add.commute)
    ultimately show ?thesis using True unfolding S_def [symmetric]
      by (subst tweak_sort.simps) simp
  next
    case False
    define split where "split = (endi - start) div 2 + start"
    define h where "h = length S div 2"
    have hs: "split - start = h" "start \<le> split" "split \<le> endi" "split \<le> length ptrs"
      "h \<le> endi - start" "endi - start - h = endi - split" "start + h = split"
      using False "1.prems" lenS by (auto simp: split_def h_def)
    define A where "A = take start ptrs"
    define L where "L = tsort (take h S)"
    define R where "R = tsort (drop h S)"
    define Z where "Z = drop endi ptrs"
    have lenA: "length A = start" using "1.prems" by (simp add: A_def)
    have lenL: "length L = h" using lenS hs False by (simp add: L_def length_tsort)
    have lenR: "length R = endi - split" using lenS hs False by (simp add: R_def length_tsort)
    have tS: "take h S = take (split - start) (drop start ptrs)"
      using hs by (simp add: S_def min_def)
    have dS: "drop h S = take (endi - split) (drop split ptrs)"
      using hs by (simp add: S_def drop_take add.commute)
    define ptrs1 where "ptrs1 = tweak_sort ptrs start split"
    have p1: "ptrs1 = A @ L @ drop split ptrs"
      unfolding ptrs1_def using "1.IH"(1)[OF False split_def] hs
      by (simp add: A_def L_def tS)
    have len1: "length ptrs1 = length ptrs"
      using p1 lenA lenL hs by simp
    have d1: "drop split ptrs1 = drop split ptrs"
      using p1 lenA lenL hs by simp
    have t1: "take split ptrs1 = A @ L"
      using p1 lenA lenL hs by simp
    have e1: "drop endi ptrs1 = Z"
      by (metis Z_def d1 drop_drop hs(3) le_add_diff_inverse2)
    define ptrs2 where "ptrs2 = tweak_sort ptrs1 split endi"
    have p2: "ptrs2 = A @ L @ R @ Z"
      unfolding ptrs2_def using "1.IH"(2)[OF False split_def ptrs1_def] hs "1.prems" len1
      by (simp add: d1 t1 e1 R_def dS)
    define left where "left = take (split - start) (drop start ptrs2)"
    have left: "left = L" unfolding left_def p2 using lenA lenL hs by simp
    have len2: "length ptrs2 = length ptrs"
      using p2 lenA lenL lenR hs "1.prems" by (simp add: Z_def)
    have unfold: "tweak_sort ptrs start endi = merge_loop ptrs2 left split endi start 0 split"
      using False
      by (subst tweak_sort.simps) (simp add: Let_def split_def ptrs1_def ptrs2_def left_def)
    have "merge_loop ptrs2 left split endi start 0 split =
          take start ptrs2 @ tmerge (split - split) (drop 0 left) (take (endi - split) (drop split ptrs2)) @ drop endi ptrs2"
      by (rule merge_loop_tmerge) (use hs "1.prems" len2 left lenL in auto)
    also have "take start ptrs2 = A" using p2 lenA by simp
    also have "take (endi - split) (drop split ptrs2) = R"
      using p2 lenA lenL lenR hs by simp
    also have "drop endi ptrs2 = Z"
      using p2 lenA lenL lenR hs by simp
    finally have "tweak_sort ptrs start endi = A @ tmerge 0 L R @ Z"
      using unfold left by simp
    moreover have "tsort S = tmerge 0 L R"
    proof -
      have "\<not> length S \<le> 1" using False lenS by simp
      then show ?thesis by (subst tsort.simps) (simp add: L_def R_def h_def)
    qed
    ultimately show ?thesis unfolding S_def [symmetric] A_def Z_def by simp
  qed
qed

lemma tweak_sort_whole: "tweak_sort ptrs 0 (length ptrs) = tsort ptrs"
  using tweak_sort_tsort [of 0 "length ptrs" ptrs] by simp

lemma unat_ucast_16_64: "unat (ucast (w :: 16 word) :: 64 word) = unat w"
proof -
  have "unat w < 2 ^ 16" using unsigned_less [of w] by simp
  then have "unat w < 2 ^ 64" by simp
  then show ?thesis by (simp add: unsigned_ucast_eq take_bit_nat_eq_self_iff)
qed

lemma idx_bound: "unat (w :: 16 word) < 65536"
  using unsigned_less [of w, where ?'a = nat] by simp

lemma takes_left_iff:
  assumes "c \<le> idx l"
  shows "takes_left l c r \<longleftrightarrow> idx l - c \<le> idx r"
proof -
  have c: "c < 65536" using assms idx_bound [of "IndexPtr.index l"] by simp
  have uc: "unat (word_of_nat c :: 64 word) = c"
    using c by (simp add: unat_of_nat)
  have le: "(word_of_nat c :: 64 word) \<le> ucast (IndexPtr.index l)"
    using assms by (simp add: word_le_nat_alt uc unat_ucast_16_64)
  have "unat (ucast (IndexPtr.index l) - word_of_nat c :: 64 word) = idx l - c"
    using unat_sub [OF le] by (simp add: uc unat_ucast_16_64)
  then show ?thesis
    by (simp add: takes_left_def word_le_nat_alt unat_ucast_16_64)
qed

lemma idx_lowered:
  assumes "c \<le> idx l"
  shows "idx (lowered l c) = idx l - c"
proof -
  have c: "c < 65536" using assms idx_bound [of "IndexPtr.index l"] by simp
  have uc: "unat (word_of_nat c :: 16 word) = c"
    using c by (simp add: unat_of_nat)
  have le: "(word_of_nat c :: 16 word) \<le> IndexPtr.index l"
    using assms by (simp add: word_le_nat_alt uc)
  show ?thesis using unat_sub [OF le] by (simp add: lowered_def uc)
qed

lemma pos_lowered [simp]: "pos (lowered l c) = pos l"
  by (simp add: lowered_def)

lemma tmerge_lower_bound:
  assumes "sorted (map idx ls)" "\<forall>l\<in>set ls. m + c \<le> idx l" "\<forall>r\<in>set rs. m \<le> idx r"
    and "x \<in> set (tmerge c ls rs)"
  shows "m \<le> idx x"
  using assms
proof (induction c ls rs rule: tmerge.induct)
  case (1 c rs)
  then show ?case by simp
next
  case (2 c l ls)
  then show ?case by (auto simp: idx_lowered)
next
  case (3 c l ls r rs)
  have cl: "c \<le> idx l" using "3.prems" by auto
  show ?case
  proof (cases "takes_left l c r")
    case True
    with 3 show ?thesis by (auto simp: idx_lowered)
  next
    case False
    then have "idx r < idx l - c" using takes_left_iff [OF cl] by simp
    then have "\<forall>l'\<in>set (l # ls). m + Suc c \<le> idx l'"
      using "3.prems" by auto
    with 3 False show ?thesis by auto
  qed
qed

lemma tmerge_sorted:
  assumes "sorted (map idx ls)" "\<forall>l\<in>set ls. c \<le> idx l" "sorted (map idx rs)"
  shows "sorted (map idx (tmerge c ls rs))"
  using assms
proof (induction c ls rs rule: tmerge.induct)
  case (1 c rs)
  then show ?case by simp
next
  case (2 c l ls)
  have "\<forall>x\<in>set (tmerge c ls []). idx l - c \<le> idx x"
    using tmerge_lower_bound [of ls "idx l - c" c "[]"] "2.prems" by auto
  with 2 show ?case by (auto simp: idx_lowered)
next
  case (3 c l ls r rs)
  have cl: "c \<le> idx l" using "3.prems" by auto
  show ?case
  proof (cases "takes_left l c r")
    case True
    then have lr: "idx l - c \<le> idx r" using takes_left_iff [OF cl] by simp
    have "\<forall>x\<in>set (tmerge c ls (r # rs)). idx l - c \<le> idx x"
    proof
      fix x assume x: "x \<in> set (tmerge c ls (r # rs))"
      show "idx l - c \<le> idx x"
      proof (rule tmerge_lower_bound [OF _ _ _ x])
        show "sorted (map idx ls)" using "3.prems" by simp
        show "\<forall>l'\<in>set ls. idx l - c + c \<le> idx l'" using "3.prems" cl by auto
        show "\<forall>r'\<in>set (r # rs). idx l - c \<le> idx r'" using "3.prems" lr by auto
      qed
    qed
    with 3 True show ?thesis by (auto simp: idx_lowered)
  next
    case False
    then have lr: "idx r < idx l - c" using takes_left_iff [OF cl] by simp
    have "\<forall>x\<in>set (tmerge (Suc c) (l # ls) rs). idx r \<le> idx x"
    proof
      fix x assume x: "x \<in> set (tmerge (Suc c) (l # ls) rs)"
      show "idx r \<le> idx x"
      proof (rule tmerge_lower_bound [OF _ _ _ x])
        show "sorted (map idx (l # ls))" using "3.prems" by simp
        show "\<forall>l'\<in>set (l # ls). idx r + Suc c \<le> idx l'" using "3.prems" lr by auto
        show "\<forall>r'\<in>set rs. idx r \<le> idx r'" using "3.prems" by auto
      qed
    qed
    moreover have "\<forall>l'\<in>set (l # ls). Suc c \<le> idx l'" using "3.prems" lr by auto
    ultimately show ?thesis using 3 False by auto
  qed
qed

lemma tsort_sorted: "sorted (map idx (tsort xs))"
proof (induction xs rule: tsort.induct)
  case (1 xs)
  show ?case
  proof (cases "length xs \<le> 1")
    case True
    then have "tsort xs = xs" by (subst tsort.simps) simp
    moreover have "sorted (map idx xs)" using True
      by (cases xs) (auto simp: le_Suc_eq)
    ultimately show ?thesis by simp
  next
    case False
    then have "tsort xs = tmerge 0 (tsort (take (length xs div 2) xs)) (tsort (drop (length xs div 2) xs))"
      by (subst tsort.simps) simp
    with 1 False show ?thesis by (simp add: tmerge_sorted)
  qed
qed


text \<open>
  Claim C4. After \<open>tweak_sort\<close> has run over the whole list, the adjusted indices are
  non-decreasing: for all positions \<open>i < j\<close> of the output, the index at \<open>i\<close> is at
  most the index at \<open>j\<close>.
\<close>

theorem tweak_sort_monotone:
  assumes "i < j" "j < length ptrs"
  shows "IndexPtr.index (tweak_sort ptrs 0 (length ptrs) ! i)
         \<le> IndexPtr.index (tweak_sort ptrs 0 (length ptrs) ! j)"
proof -
  have "sorted (map idx (tsort ptrs))" by (rule tsort_sorted)
  then have "idx (tsort ptrs ! i) \<le> idx (tsort ptrs ! j)"
    using assms by (simp add: sorted_iff_nth_mono length_tsort)
  then show ?thesis by (simp add: tweak_sort_whole word_le_nat_alt)
qed



lemma tweak_sort_example:
  "tweak_sort (mk_ptrs [(2, 0), (1, 1), (1, 2)]) 0 3 = mk_ptrs [(1, 1), (1, 0), (1, 2)]"
  by code_simp

theorem tweak_sort_monotone_witness:
  "(0::nat) < 1 \<and> 1 < length (mk_ptrs [(2, 0), (1, 1), (1, 2)]) \<and>
   IndexPtr.index (tweak_sort (mk_ptrs [(2, 0), (1, 1), (1, 2)]) 0
      (length (mk_ptrs [(2, 0), (1, 1), (1, 2)])) ! 0)
   \<le> IndexPtr.index (tweak_sort (mk_ptrs [(2, 0), (1, 1), (1, 2)]) 0
      (length (mk_ptrs [(2, 0), (1, 1), (1, 2)])) ! 1)"
proof -
  have h1: "(0::nat) < 1" by simp
  have h2: "1 < length (mk_ptrs [(2, 0), (1, 1), (1, 2)])" by (simp add: mk_ptrs_def)
  from tweak_sort_monotone [OF h1 h2] h1 h2 show ?thesis by blast
qed

declare read_txs.simps [simp del]
declare fetch_txs.simps [simp del]
declare compress_txs.simps [simp del]
declare merkle_pairs.simps [simp del]
declare merkle_rows.simps [simp del]


section \<open>Admission to the send cache\<close>

text \<open>
  Claim C6. \<open>get_relay_transaction\<close>: without the old flags it returns nothing when
  the transaction is already in the send cache or longer than
  \<open>MAX_RELAY_TRANSACTION_BYTES\<close>, and otherwise adds it with its length as cost and
  returns the message; with the old flags it returns nothing when the transaction is
  cached, or longer than \<open>OLD_MAX_RELAY_TRANSACTION_BYTES\<close> while the oversize
  budget is used up or the transaction exceeds
  \<open>OLD_MAX_RELAY_OVERSIZE_TRANSACTION_BYTES\<close>, and otherwise adds it, flagged as
  oversize exactly when it is longer than \<open>OLD_MAX_RELAY_TRANSACTION_BYTES\<close>, and
  returns the message.
\<close>

lemma add_holds:
  assumes "\<not> contains c tx" "0 < capacity c"
  shows "entries (add c tx flag) \<noteq> [] \<and> last (entries (add c tx flag)) = (tx, flag) \<and>
         contains (add c tx flag) tx \<and> length (entries (add c tx flag)) \<le> capacity c"
  using assms by (auto simp: add_def Let_def contains_def blobs_def)


theorem get_relay_transaction_policy:
  "get_relay_transaction K s tx =
     (if useOldFlags s then
        (if contains (send_tx_cache s) tx \<or>
            (length tx > OLD_MAX_RELAY_TRANSACTION_BYTES K \<and>
             (flagCount (send_tx_cache s) \<ge> OLD_MAX_EXTRA_OVERSIZE_TRANSACTIONS K \<or>
              length tx > OLD_MAX_RELAY_OVERSIZE_TRANSACTION_BYTES K))
         then (None, s)
         else (Some (tx_to_msg K tx),
               s\<lparr>send_tx_cache := add (send_tx_cache s) tx
                    (Oversize (length tx > OLD_MAX_RELAY_TRANSACTION_BYTES K))\<rparr>))
      else
        (if contains (send_tx_cache s) tx \<or> length tx > MAX_RELAY_TRANSACTION_BYTES K
         then (None, s)
         else (Some (tx_to_msg K tx),
               s\<lparr>send_tx_cache := add (send_tx_cache s) tx (Cost (length tx))\<rparr>)))"
  by (simp add: get_relay_transaction_def)


text \<open>
  With the old flags and the oversize budget of one used up, a second oversize
  transaction is turned down and a small one is admitted.
\<close>

theorem get_relay_transaction_policy_witness:
  "get_relay_transaction K0 old_node (replicate 500 0) = (None, old_node) \<and>
   get_relay_transaction K0 old_node (replicate 50 0) =
     (Some (tx_to_msg K0 (replicate 50 0)),
      old_node\<lparr>send_tx_cache := add (send_tx_cache old_node) (replicate 50 0) (Oversize False)\<rparr>)"
  using get_relay_transaction_policy [of K0 old_node "replicate 500 0"]
    get_relay_transaction_policy [of K0 old_node "replicate 50 0"]
  by (simp add: K0_def old_node_def contains_def blobs_def flagCount_def)

section \<open>The set of seen blocks on the send path\<close>

lemma compress_never_mutex_broken:
  "maybe_compress_block H K s hash B cm \<noteq> Some ((v, Some ''MUTEX_BROKEN???''), s')"
  by (auto simp: maybe_compress_block_def compress_try_def Let_def
      split: if_splits option.splits sum.splits prod.splits)

text \<open>
  Claim C7. Whenever \<open>maybe_compress_block\<close> returns an error tag other than
  \<open>MUTEX_BROKEN???\<close>, \<open>blocksAlreadySeen\<close> is unchanged by the call; whenever it
  succeeds, the block hash is inserted.
\<close>

theorem compress_seen_set:
  assumes "maybe_compress_block H K s hash B cm = Some ((v, tag), s')"
  shows "(tag = None \<longrightarrow> blocksAlreadySeen s' = insert hash (blocksAlreadySeen s)) \<and>
         (tag \<noteq> None \<and> tag \<noteq> Some ''MUTEX_BROKEN???'' \<longrightarrow>
            blocksAlreadySeen s' = blocksAlreadySeen s)"
  using assms
  by (auto simp: maybe_compress_block_def split: if_splits option.splits sum.splits prod.splits)


lemma compress_example:
  "maybe_compress_block toy K0 (sample_node [sample_tx 0] [] {}) (replicate 32 0)
      (sample_block [sample_tx 1, sample_tx 0]) False =
     Some ((Some ([1, 2, 3, 4, 0, 0, 0, 1, 0, 0, 0, 2] @ sample_header @
                  [0xff, 0xff, 0, 0, 10] @ sample_tx 1 @ [0, 0]), None),
           sample_node [] [] {replicate 32 0})"
  by code_simp

lemma compress_truncated_example:
  "maybe_compress_block toy K0 (sample_node [sample_tx 0] [] {}) (replicate 32 0)
      (sample_block [sample_tx 0] @ [0]) False =
     Some ((Some ([1, 2, 3, 4, 0, 0, 0, 1, 0, 0, 0, 1] @ sample_header @ [0, 0]), None),
           sample_node [] [] {replicate 32 0}) \<and>
   maybe_compress_block toy K0 (sample_node [sample_tx 0] [] {}) (replicate 32 0)
      (butlast (sample_block [sample_tx 0])) False =
     Some ((Some [], Some ''INVALID_SIZE''), sample_node [sample_tx 0] [] {})"
  by code_simp

theorem compress_seen_set_witness:
  "blocksAlreadySeen (sample_node [] [] {replicate 32 0}) =
     insert (replicate 32 0) (blocksAlreadySeen (sample_node [sample_tx 0] [] {})) \<and>
   blocksAlreadySeen (sample_node [sample_tx 0] [] {}) =
     blocksAlreadySeen (sample_node [sample_tx 0] [] {})"
  using compress_seen_set [OF compress_example]
    compress_seen_set [OF compress_truncated_example [THEN conjunct2]]
  by simp

section \<open>The bounds on the transaction count\<close>

lemma read_txs_stop [simp]: "\<not> i < n \<Longrightarrow> read_txs H n st rd i = (None, st, rd)"
  by (subst read_txs.simps) simp

lemma fetch_txs_stop [simp]:
  "\<not> i < length ptrs \<Longrightarrow> fetch_txs H ptrs st c l i = Some (None, st, c)"
  by (subst fetch_txs.simps) simp

lemma tweak_sort_short [simp]: "endi \<le> start + 1 \<Longrightarrow> tweak_sort ptrs start endi = ptrs"
  by (subst tweak_sort.simps) simp

lemma read_all_Some:
  "read_all rd n = Some (d, rd') \<longleftrightarrow> n \<le> length rd \<and> d = take n rd \<and> rd' = drop n rd"
  by (auto simp: read_all_def)


lemma decompress_rejects_large:
  assumes "100000 < n"
  shows "decompress_relay_block H K s rd n cm =
     Some ((0, None, Some ''got a BLOCK message with far too many transactions'', None), s, rd)"
  using assms by (simp add: decompress_relay_block_def)

lemma decompress_zero_tx_count:
  assumes "80 \<le> length rd" "TEST_DATA K \<or> \<not> block_version (take 80 rd) < 4"
  shows "decompress_relay_block H K s rd 0 False =
     Some ((12, Some (replicate 24 0 @ take 80 rd @ [0]), None, Some (double_sha256 H (take 80 rd))),
           s\<lparr>blocksAlreadySeen := insert (double_sha256 H (take 80 rd)) (blocksAlreadySeen s)\<rparr>,
           drop 80 rd)"
  using assms
  by (simp add: decompress_relay_block_def do_decompress_def DecompressState_init_def Let_def
      read_all_def bitcoin_msg_header_size_def getblockhash_def varint_def MerkleTreeBuilder_def)


text \<open>
  Claim C8 at the input \<open>tx_count = 0\<close>: \<open>decompress_relay_block\<close> tests only
  \<open>message_size > 100000\<close>, so a count of zero is not rejected; the call reads the
  80-byte header and returns a block with no transaction.
\<close>

theorem decompress_zero_tx_count_example:
  "decompress_relay_block toy K0 (sample_node [] [] {}) sample_header 0 False =
     Some ((12, Some (replicate 24 0 @ sample_header @ [0]), None, Some (toy_hash sample_header)),
           sample_node [] [] {toy_hash sample_header}, [])"
proof -
  have v: "\<not> block_version (take 80 sample_header) < 4"
    by (simp add: block_version_def sample_header_def le_nat_def Let_def)
  have l: "80 \<le> length sample_header" "take 80 sample_header = sample_header"
    by (simp_all add: sample_header_def)
  show ?thesis
    using decompress_zero_tx_count [of sample_header K0 toy "sample_node [] [] {}"] v l
    by (simp add: toy_def sample_node_def)
qed


section \<open>The caches after a failed decompression\<close>

lemma subseq_remove_nth: "subseq (remove_nth i xs) xs"
proof (cases "i < length xs")
  case True
  have "subseq (take i xs @ drop (Suc i) xs) (take i xs @ (xs ! i) # drop (Suc i) xs)"
    by (intro list_emb_append_mono list_emb_Cons subseq_order.order_refl)
  then show ?thesis using True by (simp add: remove_nth_def id_take_nth_drop [symmetric])
next
  case False
  then show ?thesis by (simp add: remove_nth_def)
qed

lemma removals_subseq: "subseq (removals ps D) D"
proof (induction ps arbitrary: D)
  case Nil
  show ?case by simp
next
  case (Cons p ps)
  show ?case
    using Cons [of "remove_nth (idx p) D"] subseq_remove_nth [of "idx p" D]
    by (auto intro: subseq_order.order_trans)
qed

lemma fetch_tx_removals:
  assumes "fetch_tx H st c l ptr = Some (eo, st', c')"
  shows "(eo = None \<and> idx ptr < length (entries c) \<and>
            c' = c\<lparr>entries := remove_nth (idx ptr) (entries c)\<rparr>) \<or>
         (eo = Some ''failed to find referenced transaction'' \<and>
            \<not> idx ptr < length (entries c) \<and> c' = c)"
  using assms by (auto simp: fetch_tx_def remove_at_def split: if_splits)

lemma fetch_txs_removals:
  assumes "fetch_txs H ptrs st c l i = Some (eo, st', c')"
  shows "c' = c\<lparr>entries := removals (drop i ptrs) (entries c)\<rparr>"
  using assms
proof (induction H ptrs st c l i rule: fetch_txs.induct)
  case (1 H ptrs state cache last_index i)
  show ?case
  proof (cases "i < length ptrs")
    case False
    with "1.prems" show ?thesis by simp
  next
    case True
    have dr: "drop i ptrs = ptrs ! i # drop (Suc i) ptrs"
      using True by (simp add: Cons_nth_drop_Suc)
    from "1.prems" True obtain e1 st1 c1 where
      b: "fetch_tx H state cache last_index (ptrs ! i) = Some (e1, st1, c1)"
      by (subst (asm) fetch_txs.simps) (auto split: option.splits)
    from fetch_tx_removals [OF b] show ?thesis
    proof
      assume a: "e1 = None \<and> idx (ptrs ! i) < length (entries cache) \<and>
            c1 = cache\<lparr>entries := remove_nth (idx (ptrs ! i)) (entries cache)\<rparr>"
      with "1.prems" True b have
        rec: "fetch_txs H ptrs st1 c1 (int (unat (IndexPtr.index (ptrs ! i)))) (i + 1) = Some (eo, st', c')"
        by (subst (asm) fetch_txs.simps) simp
      have b': "fetch_tx H state cache last_index (ptrs ! i) = Some (None, st1, c1)"
        using b a by simp
      from "1.IH" [OF True b' refl refl refl rec] a show ?thesis
        by (simp add: dr)
    next
      assume a: "e1 = Some ''failed to find referenced transaction'' \<and>
            \<not> idx (ptrs ! i) < length (entries cache) \<and> c1 = cache"
      with "1.prems" True b have "c' = cache"
        by (subst (asm) fetch_txs.simps) simp
      with a show ?thesis by (simp add: dr)
    qed
  qed
qed

lemma read_tx_error:
  assumes "read_tx H st rd i = (Some e, st', rd')"
  shows "e \<in> read_errors"
  using assms
  by (auto simp: read_tx_def Let_def read_errors_def split: option.splits if_splits)

lemma read_txs_error:
  assumes "read_txs H n st rd i = (Some e, st', rd')"
  shows "e \<in> read_errors"
  using assms
proof (induction H n st rd i rule: read_txs.induct)
  case (1 H n state rd i)
  show ?case
  proof (cases "i < n")
    case False
    with "1.prems" show ?thesis by simp
  next
    case True
    obtain e1 st1 rd1 where b: "read_tx H state rd i = (e1, st1, rd1)"
      by (cases "read_tx H state rd i") auto
    show ?thesis
    proof (cases e1)
      case (Some err)
      with "1.prems" True b have "e = err" by (subst (asm) read_txs.simps) simp
      with b Some read_tx_error show ?thesis by blast
    next
      case None
      with "1.prems" True b have "read_txs H n st1 rd1 (i + 1) = (Some e, st', rd')"
        by (subst (asm) read_txs.simps) simp
      from "1.IH" [OF True b [unfolded None, symmetric] refl refl this] show ?thesis .
    qed
  qed
qed

lemma do_decompress_stages:
  "do_decompress H K s st rd =
     (case read_all rd 80 of
        None \<Rightarrow> Some (Some ''failed to read block header'', st, s, rd)
      | Some (hdr, rd1) \<Rightarrow>
          if \<not> TEST_DATA K \<and>
             block_version (drop bitcoin_msg_header_size (block (header_state H st hdr))) < 4
          then Some (Some ''block had version < 4'',
                 st\<lparr>block := block (header_state H st hdr)\<rparr>, s, rd1)
          else if check_merkle st \<and> nonzero_top (fullhashptr (header_state H st hdr))
          then Some (Some ''block hash did not meet minimum difficulty target'',
                 header_state H st hdr,
                 s\<lparr>blocksAlreadySeen :=
                     insert (fullhashptr (header_state H st hdr)) (blocksAlreadySeen s)\<rparr>, rd1)
          else decompress_rest H
                 (s\<lparr>blocksAlreadySeen :=
                     insert (fullhashptr (header_state H st hdr)) (blocksAlreadySeen s)\<rparr>)
                 ((header_state H st hdr)\<lparr>block := block (header_state H st hdr) @
                       varint (tx_count st)\<rparr>) rd1)"
proof (cases "read_all rd 80")
  case None
  then show ?thesis by (simp add: do_decompress_def)
next
  case (Some r)
  obtain hdr rd1 where r: "r = (hdr, rd1)" by (cases r) auto
  show ?thesis
    unfolding do_decompress_def decompress_rest_def header_state_def Let_def Some r
    by (simp cong: option.case_cong prod.case_cong if_cong)
qed

lemma fetch_tx_error:
  assumes "fetch_tx H st c l ptr = Some (Some e, st', c')"
  shows "e = ''failed to find referenced transaction''"
  using assms by (auto simp: fetch_tx_def split: if_splits option.splits)

lemma fetch_txs_error:
  assumes "fetch_txs H ptrs st c l i = Some (Some e, st', c')"
  shows "e = ''failed to find referenced transaction''"
  using assms
proof (induction H ptrs st c l i rule: fetch_txs.induct)
  case (1 H ptrs state cache last_index i)
  show ?case
  proof (cases "i < length ptrs")
    case False
    with "1.prems" show ?thesis by simp
  next
    case True
    from "1.prems" True obtain e1 st1 c1 where
      b: "fetch_tx H state cache last_index (ptrs ! i) = Some (e1, st1, c1)"
      by (subst (asm) fetch_txs.simps) (auto split: option.splits)
    show ?thesis
    proof (cases e1)
      case (Some err)
      with "1.prems" True b have "e = err"
        by (subst (asm) fetch_txs.simps) simp
      with b Some fetch_tx_error show ?thesis by blast
    next
      case None
      with "1.prems" True b have
        "fetch_txs H ptrs st1 c1 (int (unat (IndexPtr.index (ptrs ! i)))) (i + 1) = Some (Some e, st', c')"
        by (subst (asm) fetch_txs.simps) simp
      from "1.IH" [OF True b [unfolded None] refl refl refl this] show ?thesis .
    qed
  qed
qed

lemma read_errors_not_late: "e \<in> read_errors \<Longrightarrow> e \<notin> late_errors"
  by (auto simp: read_errors_def late_errors_def)

lemma decompress_rest_error_exact:
  assumes "decompress_rest H s1 st3 rd1 = Some (Some e, st', s', rd')"
  shows "send_tx_cache s' = send_tx_cache s1 \<and>
         recv_tx_cache s' =
           (if e \<in> late_errors
            then (recv_tx_cache s1)\<lparr>entries :=
                   removals
                     (tweak_sort (txn_ptrs (fst (snd (read_txs H (tx_count st3) st3 rd1 0)))) 0
                        (length (txn_ptrs (fst (snd (read_txs H (tx_count st3) st3 rd1 0))))))
                     (entries (recv_tx_cache s1))\<rparr>
            else recv_tx_cache s1)"
proof -
  obtain e4 st4 rd2 where r: "read_txs H (tx_count st3) st3 rd1 0 = (e4, st4, rd2)"
    by (cases "read_txs H (tx_count st3) st3 rd1 0") auto
  show ?thesis
  proof (cases e4)
    case (Some err)
    with assms r have "s' = s1" "e = err" by (simp_all add: decompress_rest_def)
    moreover have "err \<in> read_errors" using read_txs_error r Some by blast
    ultimately show ?thesis using read_errors_not_late by auto
  next
    case None
    define st5 where "st5 = st4\<lparr>txn_ptrs := tweak_sort (txn_ptrs st4) 0 (length (txn_ptrs st4))\<rparr>"
    from assms r None obtain e6 st6 c6 where
      f: "fetch_txs H (txn_ptrs st5) st5 (recv_tx_cache s1) (- 1) 0 = Some (e6, st6, c6)"
      by (auto simp: decompress_rest_def Let_def st5_def split: option.splits)
    from fetch_txs_removals [OF f] have c6:
      "c6 = (recv_tx_cache s1)\<lparr>entries := removals (tweak_sort (txn_ptrs st4) 0 (length (txn_ptrs st4)))
               (entries (recv_tx_cache s1))\<rparr>"
      by (simp add: st5_def)
    have "s' = s1\<lparr>recv_tx_cache := c6\<rparr> \<and> e \<in> late_errors"
    proof (cases e6)
      case (Some err)
      with assms r None f have "s' = s1\<lparr>recv_tx_cache := c6\<rparr>" "e = err"
        by (simp_all add: decompress_rest_def Let_def st5_def)
      with fetch_txs_error [OF f [unfolded Some]] show ?thesis by (simp add: late_errors_def)
    next
      case N6: None
      with assms r None f have "s' = s1\<lparr>recv_tx_cache := c6\<rparr>"
        "e = ''merkle tree root did not match''"
        by (simp_all add: decompress_rest_def Let_def st5_def split: if_splits option.splits)
      then show ?thesis by (simp add: late_errors_def)
    qed
    then show ?thesis using c6 r by simp
  qed
qed

lemma do_decompress_error_exact:
  assumes "do_decompress H K s (DecompressState_init cm n) rd = Some (Some e, st', s', rd')"
  shows "send_tx_cache s' = send_tx_cache s \<and>
         recv_tx_cache s' =
           (if e \<in> late_errors
            then (recv_tx_cache s)\<lparr>entries :=
                   removals (tweak_sort (wire_references H cm n rd) 0
                               (length (wire_references H cm n rd)))
                     (entries (recv_tx_cache s))\<rparr>
            else recv_tx_cache s)"
proof (cases "read_all rd 80")
  case None
  with assms show ?thesis by (auto simp: do_decompress_stages late_errors_def)
next
  case (Some r)
  obtain hdr rd1 where r: "r = (hdr, rd1)" by (cases r) auto
  from Some r have hdr: "hdr = take 80 rd" "rd1 = drop 80 rd" by (auto simp: read_all_def split: if_splits)
  define st0 where "st0 = DecompressState_init cm n"
  define st2 where "st2 = header_state H st0 hdr"
  define s1 where "s1 = s\<lparr>blocksAlreadySeen := insert (fullhashptr st2) (blocksAlreadySeen s)\<rparr>"
  have s1: "send_tx_cache s1 = send_tx_cache s" "recv_tx_cache s1 = recv_tx_cache s"
    by (simp_all add: s1_def)
  have tc: "tx_count st0 = n" by (simp add: st0_def DecompressState_init_def)
  consider (version) "s' = s" "e = ''block had version < 4''"
    | (work) "s' = s1" "e = ''block hash did not meet minimum difficulty target''"
    | (rest) "decompress_rest H s1 (st2\<lparr>block := block st2 @ varint (tx_count st0)\<rparr>) rd1 =
              Some (Some e, st', s', rd')"
    using assms unfolding do_decompress_stages Some r st0_def [symmetric]
    by (auto simp: st2_def s1_def split: if_splits)
  then show ?thesis
  proof cases
    case version
    then show ?thesis by (simp add: late_errors_def)
  next
    case work
    then show ?thesis by (simp add: s1 late_errors_def)
  next
    case rest
    have rs: "st2\<lparr>block := block st2 @ varint (tx_count st0)\<rparr> = read_state H cm n rd"
      by (simp add: read_state_def Let_def st2_def st0_def hdr tc [unfolded st0_def])
    have tcr: "tx_count (read_state H cm n rd) = n"
      by (simp add: read_state_def Let_def header_state_def DecompressState_init_def)
    from decompress_rest_error_exact [OF rest [unfolded rs]] show ?thesis
      by (simp add: s1 tcr wire_references_def hdr)
  qed
qed

text \<open>
  Claim C2, as amended. When \<open>decompress_relay_block\<close> returns an error message,
  the send cache is as it was. The receive cache is as it was unless the message is
  \<open>failed to find referenced transaction\<close> or \<open>merkle tree root did not match\<close>.
  These two come after the removal loop has started, and nothing is put back: the
  receive cache is then exactly the old one without the entries that the references of
  the stream, in the order \<open>tweak_sort\<close> gives them, took out before the loop stopped;
  every other entry is still there, in its old order.
\<close>

theorem failed_decompress_caches:
  assumes "decompress_relay_block H K s rd n cm = Some ((wb, b, Some e, h), s', rd')"
  shows "send_tx_cache s' = send_tx_cache s \<and>
         recv_tx_cache s' =
           (if e = ''failed to find referenced transaction'' \<or>
               e = ''merkle tree root did not match''
            then (recv_tx_cache s)\<lparr>entries :=
                   removals (tweak_sort (wire_references H cm (unat n) rd) 0
                               (length (wire_references H cm (unat n) rd)))
                     (entries (recv_tx_cache s))\<rparr>
            else recv_tx_cache s)"
proof (cases "n > 100000")
  case True
  with assms show ?thesis by (auto simp: decompress_relay_block_def)
next
  case False
  from assms False obtain st where
    d: "do_decompress H K s (DecompressState_init cm (unat n)) rd = Some (Some e, st, s', rd')"
    by (auto simp: decompress_relay_block_def split: option.splits prod.splits)
  from do_decompress_error_exact [OF d] show ?thesis
    by (simp add: late_errors_def)
qed

lemma late_error_example:
  "decompress_relay_block toy K0 (sample_node [] [sample_tx 0, sample_tx 1] {})
      (sample_header @ [0, 0, 0, 5]) 2 False =
     Some ((0, None, Some ''failed to find referenced transaction'', None),
           sample_node [] [sample_tx 1] {toy_hash sample_header}, [])"
  by code_simp

text \<open>
  The claim as stated fails: on a receive cache of two entries, a reference to entry 0
  followed by a reference to a missing entry ends in
  \<open>failed to find referenced transaction\<close>; the first entry is gone and the second
  is all that is left.
\<close>

theorem failed_decompress_caches_counterexample:
  "decompress_relay_block toy K0 (sample_node [] [sample_tx 0, sample_tx 1] {})
      (sample_header @ [0, 0, 0, 5]) 2 False =
     Some ((0, None, Some ''failed to find referenced transaction'', None),
           sample_node [] [sample_tx 1] {toy_hash sample_header}, []) \<and>
   blobs (recv_tx_cache (sample_node [] [sample_tx 0, sample_tx 1] {})) = [sample_tx 0, sample_tx 1] \<and>
   blobs (recv_tx_cache (sample_node [] [sample_tx 1] {toy_hash sample_header})) = [sample_tx 1]"
  by code_simp

lemma late_error_removals:
  "removals (tweak_sort (wire_references toy False (unat (2 :: 32 word)) (sample_header @ [0, 0, 0, 5])) 0
       (length (wire_references toy False (unat (2 :: 32 word)) (sample_header @ [0, 0, 0, 5]))))
     (entries (recv_tx_cache (sample_node [] [sample_tx 0, sample_tx 1] {}))) =
   [(sample_tx 1, Cost 10)]"
  by code_simp

lemma short_read_example:
  "decompress_relay_block toy K0 (sample_node [] [sample_tx 0] {}) (sample_header @ [0]) 1 False =
     Some ((0, None, Some ''failed to read tx index'', None),
           sample_node [] [sample_tx 0] {toy_hash sample_header}, [0])"
  by code_simp

lemma short_read_not_late:
  "\<not> (''failed to read tx index'' = ''failed to find referenced transaction'' \<or>
      ''failed to read tx index'' = ''merkle tree root did not match'')"
  by simp

theorem failed_decompress_caches_witness:
  "decompress_relay_block toy K0 (sample_node [] [sample_tx 0, sample_tx 1] {})
      (sample_header @ [0, 0, 0, 5]) 2 False =
     Some ((0, None, Some ''failed to find referenced transaction'', None),
           sample_node [] [sample_tx 1] {toy_hash sample_header}, []) \<and>
   send_tx_cache (sample_node [] [sample_tx 1] {toy_hash sample_header}) =
     send_tx_cache (sample_node [] [sample_tx 0, sample_tx 1] {}) \<and>
   recv_tx_cache (sample_node [] [sample_tx 1] {toy_hash sample_header}) =
     (recv_tx_cache (sample_node [] [sample_tx 0, sample_tx 1] {}))
       \<lparr>entries := [(sample_tx 1, Cost 10)]\<rparr> \<and>
   decompress_relay_block toy K0 (sample_node [] [sample_tx 0] {}) (sample_header @ [0]) 1 False =
     Some ((0, None, Some ''failed to read tx index'', None),
           sample_node [] [sample_tx 0] {toy_hash sample_header}, [0]) \<and>
   send_tx_cache (sample_node [] [sample_tx 0] {toy_hash sample_header}) =
     send_tx_cache (sample_node [] [sample_tx 0] {}) \<and>
   recv_tx_cache (sample_node [] [sample_tx 0] {toy_hash sample_header}) =
     recv_tx_cache (sample_node [] [sample_tx 0] {})"
  using failed_decompress_caches [OF late_error_example] late_error_example
    failed_decompress_caches [OF short_read_example] short_read_example
  by (simp only: simp_thms if_True if_False late_error_removals short_read_not_late)

section \<open>Seen blocks: the send path gates, the receive path does not\<close>

lemma do_decompress_seen_indep:
  "map_option (\<lambda>(e, st, s', rd'). (e, st, send_tx_cache s', recv_tx_cache s', rd'))
     (do_decompress H K (s\<lparr>blocksAlreadySeen := A\<rparr>) st rd) =
   map_option (\<lambda>(e, st, s', rd'). (e, st, send_tx_cache s', recv_tx_cache s', rd'))
     (do_decompress H K (s\<lparr>blocksAlreadySeen := B\<rparr>) st rd)"
  unfolding do_decompress_def Let_def
  by (auto split: option.splits prod.splits)

lemma decompress_rest_seen:
  assumes "decompress_rest H s1 st3 rd1 = Some (eo, st', s', rd')"
  shows "blocksAlreadySeen s' = blocksAlreadySeen s1"
proof -
  obtain e4 st4 rd2 where r: "read_txs H (tx_count st3) st3 rd1 0 = (e4, st4, rd2)"
    by (cases "read_txs H (tx_count st3) st3 rd1 0") auto
  show ?thesis
  proof (cases e4)
    case (Some err)
    with assms r show ?thesis by (simp add: decompress_rest_def)
  next
    case None
    define st5 where "st5 = st4\<lparr>txn_ptrs := tweak_sort (txn_ptrs st4) 0 (length (txn_ptrs st4))\<rparr>"
    from assms r None obtain e6 st6 c6 where
      f: "fetch_txs H (txn_ptrs st5) st5 (recv_tx_cache s1) (- 1) 0 = Some (e6, st6, c6)"
      by (auto simp: decompress_rest_def Let_def st5_def split: option.splits)
    from assms r None f have "s' = s1\<lparr>recv_tx_cache := c6\<rparr>"
      by (cases e6) (auto simp: decompress_rest_def Let_def st5_def split: if_splits option.splits)
    then show ?thesis by simp
  qed
qed

lemma do_decompress_seen:
  assumes "do_decompress H K s st rd = Some (eo, st', s', rd')"
    and "length (block st) = bitcoin_msg_header_size + 80"
  shows "blocksAlreadySeen s' =
         (if 80 \<le> length rd \<and> (TEST_DATA K \<or> \<not> block_version (take 80 rd) < 4)
          then insert (double_sha256 H (take 80 rd)) (blocksAlreadySeen s)
          else blocksAlreadySeen s)"
proof (cases "read_all rd 80")
  case None
  then have "\<not> 80 \<le> length rd" by (auto simp: read_all_def split: if_splits)
  with assms(1) None show ?thesis by (auto simp: do_decompress_stages)
next
  case (Some r)
  obtain hdr rd1 where r: "r = (hdr, rd1)" by (cases r) auto
  from Some r have hdr: "hdr = take 80 rd" "rd1 = drop 80 rd" "80 \<le> length rd"
    by (auto simp: read_all_def split: if_splits)
  define st2 where "st2 = header_state H st hdr"
  define s1 where "s1 = s\<lparr>blocksAlreadySeen := insert (fullhashptr st2) (blocksAlreadySeen s)\<rparr>"
  have fh: "fullhashptr st2 = double_sha256 H (take 80 rd)"
    using hdr assms(2) by (simp add: st2_def header_state_def getblockhash_def)
  have bv: "drop bitcoin_msg_header_size (block (header_state H st hdr)) = hdr"
    using hdr assms(2) by (simp add: header_state_def bitcoin_msg_header_size_def)
  consider (version) "s' = s" "\<not> TEST_DATA K" "block_version hdr < 4"
    | (work) "s' = s1" "TEST_DATA K \<or> \<not> block_version hdr < 4"
    | (rest) "TEST_DATA K \<or> \<not> block_version hdr < 4"
        "decompress_rest H s1 (st2\<lparr>block := block st2 @ varint (tx_count st)\<rparr>) rd1 =
              Some (eo, st', s', rd')"
    using assms(1)
    by (auto simp: do_decompress_stages Some r bv st2_def s1_def split: if_splits)
  then show ?thesis
  proof cases
    case version
    then show ?thesis by (auto simp: hdr)
  next
    case work
    then show ?thesis using hdr by (auto simp: s1_def fh)
  next
    case rest
    from decompress_rest_seen [OF rest(2)] rest(1) show ?thesis
      using hdr by (auto simp: s1_def fh)
  qed
qed

lemma decompress_relay_block_seen:
  assumes "decompress_relay_block H K s rd n cm = Some (t, s', rd')"
  shows "blocksAlreadySeen s' =
         (if n \<le> 100000 \<and> 80 \<le> length rd \<and> (TEST_DATA K \<or> \<not> block_version (take 80 rd) < 4)
          then insert (double_sha256 H (take 80 rd)) (blocksAlreadySeen s)
          else blocksAlreadySeen s)"
proof (cases "n > 100000")
  case True
  with assms show ?thesis by (auto simp: decompress_relay_block_def)
next
  case False
  from assms False obtain eo st where
    d: "do_decompress H K s (DecompressState_init cm (unat n)) rd = Some (eo, st, s', rd')"
    by (auto simp: decompress_relay_block_def split: option.splits prod.splits)
  have "length (block (DecompressState_init cm (unat n))) = bitcoin_msg_header_size + 80"
    by (simp add: DecompressState_init_def)
  from do_decompress_seen [OF d this] False show ?thesis by (simp add: not_less)
qed

text \<open>
  Claim C9, as amended. For a block hash already in \<open>blocksAlreadySeen\<close>,
  \<open>maybe_compress_block\<close> fails: with \<open>BAD_WORK\<close> when the Merkle check is on and
  the hash fails the work test (that test comes first), with \<open>SEEN\<close> otherwise.
  \<open>decompress_relay_block\<close> does not consult the set: its result, both caches and the
  reader are the same whatever the set holds. It inserts the hash of the 80 header bytes
  into the set, and nothing else, once the transaction count has passed its test, the
  header has been read and the version test has passed; when one of these three fails,
  the set is left as it was. The insertion comes before the work test and everything
  after it, so it stays also when the call ends in a later error.
\<close>

theorem seen_blocks_gate:
  "(hash \<in> blocksAlreadySeen s \<and> (cm \<longrightarrow> 32 \<le> length hash) \<longrightarrow>
      maybe_compress_block H K s hash B cm =
        Some ((None, Some (if cm \<and> nonzero_top hash then ''BAD_WORK'' else ''SEEN'')), s)) \<and>
   outcome (decompress_relay_block H K (s\<lparr>blocksAlreadySeen := A\<rparr>) rd n cm) =
   outcome (decompress_relay_block H K (s\<lparr>blocksAlreadySeen := {}\<rparr>) rd n cm) \<and>
   (\<forall>t s' rd'. decompress_relay_block H K s rd n cm = Some (t, s', rd') \<longrightarrow>
      blocksAlreadySeen s' =
        (if n \<le> 100000 \<and> 80 \<le> length rd \<and>
            (TEST_DATA K \<or> \<not> block_version (take 80 rd) < 4)
         then insert (double_sha256 H (take 80 rd)) (blocksAlreadySeen s)
         else blocksAlreadySeen s))"
proof -
  have "outcome (decompress_relay_block H K (s\<lparr>blocksAlreadySeen := A\<rparr>) rd n cm) =
        outcome (decompress_relay_block H K (s\<lparr>blocksAlreadySeen := {}\<rparr>) rd n cm)"
    using do_decompress_seen_indep [where H = H and K = K and s = s and A = A and B = "{}"
        and st = "DecompressState_init cm (unat n)" and rd = rd]
    by (auto simp: decompress_relay_block_def outcome_def split: option.splits prod.splits)
  moreover have "\<forall>t s' rd'. decompress_relay_block H K s rd n cm = Some (t, s', rd') \<longrightarrow>
      blocksAlreadySeen s' =
        (if n \<le> 100000 \<and> 80 \<le> length rd \<and>
            (TEST_DATA K \<or> \<not> block_version (take 80 rd) < 4)
         then insert (double_sha256 H (take 80 rd)) (blocksAlreadySeen s)
         else blocksAlreadySeen s)"
    using decompress_relay_block_seen by blast
  ultimately show ?thesis by (simp add: maybe_compress_block_def)
qed

text \<open>
  The claim as stated fails: with the Merkle check on, a seen hash whose last byte is not
  zero is answered with \<open>BAD_WORK\<close>, not \<open>SEEN\<close>.
\<close>

theorem seen_blocks_gate_counterexample:
  "bad_hash \<in> blocksAlreadySeen (sample_node [] [] {bad_hash}) \<and>
   maybe_compress_block toy K0 (sample_node [] [] {bad_hash}) bad_hash [] True =
     Some ((None, Some ''BAD_WORK''), sample_node [] [] {bad_hash})"
  by (simp add: maybe_compress_block_def nonzero_top_def bad_hash_def sample_node_def nth_append)

lemma receive_seen_example:
  "decompress_relay_block toy K0 (sample_node [] [sample_tx 1] {toy_hash sample_header})
      (sample_header @ [0, 0]) 1 False =
     Some ((14, Some (sample_block [sample_tx 1]), None, Some (toy_hash sample_header)),
           sample_node [] [] {toy_hash sample_header}, [])"
  by code_simp

lemma receive_unseen_example:
  "decompress_relay_block toy K0
      ((sample_node [] [sample_tx 1] {toy_hash sample_header})\<lparr>blocksAlreadySeen := {}\<rparr>)
      (sample_header @ [0, 0]) 1 False =
     Some ((14, Some (sample_block [sample_tx 1]), None, Some (toy_hash sample_header)),
           sample_node [] [] {toy_hash sample_header}, [])"
  by code_simp

lemma receive_bad_version_example:
  "decompress_relay_block toy K0 (sample_node [] [sample_tx 1] {})
      (replicate 80 0 @ [0, 0]) 1 False =
     Some ((0, None, Some ''block had version < 4'', None),
           sample_node [] [sample_tx 1] {}, [0, 0])"
  by code_simp

lemma send_seen_example:
  "toy_hash sample_header \<in> blocksAlreadySeen (sample_node [] [sample_tx 1] {toy_hash sample_header}) \<and>
   (False \<longrightarrow> 32 \<le> length (toy_hash sample_header))"
  by (simp add: sample_node_def)

lemma receive_gate_example:
  "((1 :: 32 word) \<le> 100000 \<and> 80 \<le> length (sample_header @ [0, 0]) \<and>
    (TEST_DATA K0 \<or> \<not> block_version (take 80 (sample_header @ [0, 0])) < 4)) = True"
  "double_sha256 toy (take 80 (sample_header @ [0, 0])) = toy_hash sample_header"
  "blocksAlreadySeen (sample_node [] [sample_tx 1] {toy_hash sample_header}) = {toy_hash sample_header}"
  "blocksAlreadySeen (sample_node [] [] {toy_hash sample_header}) = {toy_hash sample_header}"
  by code_simp+

text \<open>
  An instance on a block that is already in the set: the send path answers \<open>SEEN\<close>;
  the receive path rebuilds the block, from a node that has seen it as from one that has
  not, and the set afterwards is the old one with the hash inserted.
\<close>

theorem seen_blocks_gate_witness:
  "toy_hash sample_header \<in> blocksAlreadySeen (sample_node [] [sample_tx 1] {toy_hash sample_header}) \<and>
   maybe_compress_block toy K0 (sample_node [] [sample_tx 1] {toy_hash sample_header})
       (toy_hash sample_header) (sample_block [sample_tx 1]) False =
     Some ((None, Some ''SEEN''), sample_node [] [sample_tx 1] {toy_hash sample_header}) \<and>
   decompress_relay_block toy K0 (sample_node [] [sample_tx 1] {toy_hash sample_header})
      (sample_header @ [0, 0]) 1 False =
     Some ((14, Some (sample_block [sample_tx 1]), None, Some (toy_hash sample_header)),
           sample_node [] [] {toy_hash sample_header}, []) \<and>
   outcome (decompress_relay_block toy K0
      ((sample_node [] [sample_tx 1] {toy_hash sample_header})\<lparr>blocksAlreadySeen := {}\<rparr>)
      (sample_header @ [0, 0]) 1 False) =
     Some ((14, Some (sample_block [sample_tx 1]), None, Some (toy_hash sample_header)),
           send_tx_cache (sample_node [] [] {toy_hash sample_header}),
           recv_tx_cache (sample_node [] [] {toy_hash sample_header}), []) \<and>
   blocksAlreadySeen (sample_node [] [] {toy_hash sample_header}) =
     insert (toy_hash sample_header)
       (blocksAlreadySeen (sample_node [] [sample_tx 1] {toy_hash sample_header}))"
proof -
  note gate = seen_blocks_gate [of "toy_hash sample_header"
        "sample_node [] [sample_tx 1] {toy_hash sample_header}" False toy K0
        "sample_block [sample_tx 1]" "{toy_hash sample_header}" "sample_header @ [0, 0]" 1]
  have same: "(sample_node [] [sample_tx 1] {toy_hash sample_header})
                \<lparr>blocksAlreadySeen := {toy_hash sample_header}\<rparr> =
              sample_node [] [sample_tx 1] {toy_hash sample_header}"
    by (simp add: sample_node_def)
  have send: "maybe_compress_block toy K0 (sample_node [] [sample_tx 1] {toy_hash sample_header})
       (toy_hash sample_header) (sample_block [sample_tx 1]) False =
     Some ((None, Some ''SEEN''), sample_node [] [sample_tx 1] {toy_hash sample_header})"
    using gate send_seen_example by (simp only: simp_thms if_False)
  have indep: "outcome (decompress_relay_block toy K0
      ((sample_node [] [sample_tx 1] {toy_hash sample_header})\<lparr>blocksAlreadySeen := {}\<rparr>)
      (sample_header @ [0, 0]) 1 False) =
     outcome (decompress_relay_block toy K0 (sample_node [] [sample_tx 1] {toy_hash sample_header})
      (sample_header @ [0, 0]) 1 False)"
    using gate by (simp only: same)
  have seen: "blocksAlreadySeen (sample_node [] [] {toy_hash sample_header}) =
     insert (toy_hash sample_header)
       (blocksAlreadySeen (sample_node [] [sample_tx 1] {toy_hash sample_header}))"
    using gate receive_seen_example by (simp only: receive_gate_example(1,2) if_True)
  show ?thesis
    using send indep seen send_seen_example receive_seen_example
    by (simp add: outcome_def)
qed

section \<open>The Merkle tree builder computes the reference root\<close>

declare merkle_fold.simps [simp del]
declare duplicate_sibling.simps [simp del]

lemma pair_row_nth:
  assumes "j < (length row + 1) div 2"
  shows "pair_row H row ! j =
         double_sha256_two_32_inputs H (row ! (2 * j)) (row ! (min (2 * j + 1) (length row - 1)))"
  using assms
proof (induction H row arbitrary: j rule: pair_row.induct)
  case (1 H)
  then show ?case by simp
next
  case (2 H a)
  then show ?case by simp
next
  case (3 H a b xs)
  show ?case
  proof (cases j)
    case 0
    then show ?thesis by simp
  next
    case (Suc j')
    with "3.prems" have j': "j' < (length xs + 1) div 2" by simp
    then have "xs \<noteq> []" by auto
    with "3.IH" [OF j'] Suc show ?thesis
      by (cases xs) (auto simp: min_def)
  qed
qed

lemma merkle_pairs_result:
  assumes "0 < stp" "lastMax = (n - 1) * stp" "lastMax < length hl" "0 < n"
  shows "\<exists>hl'. merkle_pairs H hl stp lastMax n i = Some hl' \<and> length hl' = length hl \<and>
           (\<forall>j<n. hl' ! (j * stp) =
              (if (\<exists>m. j = i + 2 * m)
               then double_sha256_two_32_inputs H (hl ! (j * stp)) (hl ! (min ((j + 1) * stp) lastMax))
               else hl ! (j * stp)))"
  using assms
proof (induction H hl stp lastMax n i rule: merkle_pairs.induct)
  case (1 H hashlist stepCount lastMax rowSize i)
  show ?case
  proof (cases "i < rowSize")
    case False
    then show ?thesis by (subst merkle_pairs.simps) auto
  next
    case True
    have inb: "i * stepCount < length hashlist"
    proof -
      have "i \<le> rowSize - 1" using True by simp
      then have "i * stepCount \<le> (rowSize - 1) * stepCount" by (rule mult_le_mono1)
      also have "\<dots> < length hashlist" using "1.prems" by simp
      finally show ?thesis .
    qed
    define v where "v = double_sha256_two_32_inputs H (hashlist ! (i * stepCount))
                     (hashlist ! (min ((i + 1) * stepCount) lastMax))"
    define hl1 where "hl1 = hashlist[i * stepCount := v]"
    have step: "merkle_pairs H hashlist stepCount lastMax rowSize i =
                merkle_pairs H hl1 stepCount lastMax rowSize (i + 2)"
      using True inb "1.prems" by (subst merkle_pairs.simps) (simp add: hl1_def v_def)
    have "\<exists>hl'. merkle_pairs H hl1 stepCount lastMax rowSize (i + 2) = Some hl' \<and>
            length hl' = length hl1 \<and>
            (\<forall>j<rowSize. hl' ! (j * stepCount) =
              (if (\<exists>m. j = i + 2 + 2 * m)
               then double_sha256_two_32_inputs H (hl1 ! (j * stepCount))
                      (hl1 ! (min ((j + 1) * stepCount) lastMax))
               else hl1 ! (j * stepCount)))"
    proof -
      have c: "i * stepCount < length hashlist \<and> lastMax < length hashlist"
        using inb "1.prems" by simp
      have l1: "lastMax < length (hashlist[i * stepCount :=
                  double_sha256_two_32_inputs H (hashlist ! (i * stepCount))
                     (hashlist ! (min ((i + 1) * stepCount) lastMax))])"
        using "1.prems" by simp
      show ?thesis
        unfolding hl1_def v_def
        by (rule "1.IH" [OF True c "1.prems"(1) "1.prems"(2) l1 "1.prems"(4)])
    qed
    then obtain hl' where r: "merkle_pairs H hl1 stepCount lastMax rowSize (i + 2) = Some hl'"
      and len: "length hl' = length hl1"
      and pt: "\<forall>j<rowSize. hl' ! (j * stepCount) =
              (if (\<exists>m. j = i + 2 + 2 * m)
               then double_sha256_two_32_inputs H (hl1 ! (j * stepCount))
                      (hl1 ! (min ((j + 1) * stepCount) lastMax))
               else hl1 ! (j * stepCount))"
      by blast
    have "hl' ! (j * stepCount) =
              (if (\<exists>m. j = i + 2 * m)
               then double_sha256_two_32_inputs H (hashlist ! (j * stepCount))
                      (hashlist ! (min ((j + 1) * stepCount) lastMax))
               else hashlist ! (j * stepCount))" if j: "j < rowSize" for j
    proof -
      have jl: "j * stepCount \<le> lastMax"
      proof -
        have "j \<le> rowSize - 1" using j by simp
        then have "j * stepCount \<le> (rowSize - 1) * stepCount" by (rule mult_le_mono1)
        also have "\<dots> = lastMax" using "1.prems" by simp
        finally show ?thesis .
      qed
      consider (eq) "j = i" | (later) "\<exists>m. j = i + 2 + 2 * m"
        | (other) "j \<noteq> i" "\<not> (\<exists>m. j = i + 2 + 2 * m)"
        by blast
      then show ?thesis
      proof cases
        case eq
        have "\<not> (\<exists>m. i = i + 2 + 2 * m)" by presburger
        moreover have "\<exists>m. i = i + 2 * m" by presburger
        ultimately show ?thesis using pt j inb eq by (simp add: hl1_def v_def)
      next
        case later
        have ij: "i < j" using later by presburger
        have ne1: "j * stepCount \<noteq> i * stepCount" using ij "1.prems" by simp
        have lt: "i * stepCount < j * stepCount" using ij "1.prems" by simp
        have ne2: "min ((j + 1) * stepCount) lastMax \<noteq> i * stepCount"
        proof (cases "(j + 1) * stepCount \<le> lastMax")
          case True
          have "j * stepCount \<le> (j + 1) * stepCount" by simp
          with lt True show ?thesis by (simp only: min_def if_True, linarith?)
        next
          case False
          with lt jl show ?thesis by (simp only: min_def if_False, linarith?)
        qed
        have "\<exists>m. j = i + 2 * m" using later by presburger
        then show ?thesis using pt j later ne1 ne2 by (simp add: hl1_def)
      next
        case other
        have ne1: "j * stepCount \<noteq> i * stepCount" using other "1.prems" by simp
        have "\<not> (\<exists>m. j = i + 2 * m)" using other by presburger
        then show ?thesis using pt j other ne1 by (simp add: hl1_def)
      qed
    qed
    then show ?thesis using step r len by (simp add: hl1_def)
  qed
qed

lemma length_strided [simp]: "length (strided hl stp n) = n"
  by (simp add: strided_def)

lemma strided_nth [simp]: "j < n \<Longrightarrow> strided hl stp n ! j = hl ! (j * stp)"
  by (simp add: strided_def)

lemma merkle_pairs_row:
  assumes "0 < stp" "lastMax = (n - 1) * stp" "lastMax < length hl" "0 < n"
  shows "\<exists>hl'. merkle_pairs H hl stp lastMax n 0 = Some hl' \<and> length hl' = length hl \<and>
           strided hl' (stp * 2) ((n + 1) div 2) = pair_row H (strided hl stp n)"
proof -
  from merkle_pairs_result [OF assms, of H 0] obtain hl' where
    r: "merkle_pairs H hl stp lastMax n 0 = Some hl'" and len: "length hl' = length hl"
    and pt: "\<forall>j<n. hl' ! (j * stp) =
              (if (\<exists>m. j = 0 + 2 * m)
               then double_sha256_two_32_inputs H (hl ! (j * stp)) (hl ! (min ((j + 1) * stp) lastMax))
               else hl ! (j * stp))"
    by blast
  have "strided hl' (stp * 2) ((n + 1) div 2) = pair_row H (strided hl stp n)"
  proof (rule nth_equalityI)
    show "length (strided hl' (stp * 2) ((n + 1) div 2)) = length (pair_row H (strided hl stp n))"
      by simp
  next
    fix j assume "j < length (strided hl' (stp * 2) ((n + 1) div 2))"
    then have j: "j < (n + 1) div 2" by simp
    then have j2: "2 * j < n" using assms(4) by linarith
    have m: "min (2 * j + 1) (n - 1) < n" using assms(4) by simp
    have mm: "min ((2 * j + 1) * stp) lastMax = min (2 * j + 1) (n - 1) * stp"
      unfolding assms(2) by (simp only: nat_mult_min_left)
    have "strided hl' (stp * 2) ((n + 1) div 2) ! j = hl' ! ((2 * j) * stp)"
      using j by (simp add: mult.commute mult.left_commute)
    also have "\<dots> = double_sha256_two_32_inputs H (hl ! ((2 * j) * stp))
                       (hl ! (min ((2 * j + 1) * stp) lastMax))"
      using pt j2 by auto
    also have "\<dots> = double_sha256_two_32_inputs H (hl ! ((2 * j) * stp))
                       (hl ! (min (2 * j + 1) (n - 1) * stp))"
      by (simp only: mm)
    also have "\<dots> = double_sha256_two_32_inputs H (strided hl stp n ! (2 * j))
                       (strided hl stp n ! (min (2 * j + 1) (n - 1)))"
      using j2 m by (simp only: strided_nth)
    also have "\<dots> = pair_row H (strided hl stp n) ! j"
      using pair_row_nth [of j "strided hl stp n" H] j by simp
    finally show "strided hl' (stp * 2) ((n + 1) div 2) ! j = pair_row H (strided hl stp n) ! j" .
  qed
  with r len show ?thesis by blast
qed

lemma merkle_rows_result:
  assumes "0 < stp" "lastMax = (n - 1) * stp" "lastMax < length hl" "0 < n"
  shows "merkle_rows H hl R stp lastMax n =
         Some (\<not> duplicate_sibling H (strided hl stp n) \<and> merkle_fold H (strided hl stp n) = R)"
  using assms
proof (induction H hl R stp lastMax n rule: merkle_rows.induct)
  case (1 H hashlist match stepCount lastMax rowSize)
  define row where "row = strided hashlist stepCount rowSize"
  have lr: "length row = rowSize" by (simp add: row_def)
  show ?case
  proof (cases "rowSize > 1")
    case False
    then have one: "rowSize = 1" using "1.prems" by simp
    have "merkle_fold H row = hashlist ! 0"
      using one lr by (subst merkle_fold.simps) (simp add: row_def)
    moreover have "\<not> duplicate_sibling H row"
      using one lr by (subst duplicate_sibling.simps) simp
    ultimately show ?thesis
      using False unfolding row_def [symmetric] by (subst merkle_rows.simps) simp
  next
    case True
    have ge: "stepCount \<le> lastMax"
    proof -
      have "1 * stepCount \<le> (rowSize - 1) * stepCount" using True by (intro mult_le_mono1) simp
      then show ?thesis using "1.prems" by simp
    qed
    have g: "\<not> (lastMax < stepCount \<or> length hashlist \<le> lastMax)"
      using ge "1.prems" by simp
    have a2: "hashlist ! (lastMax - stepCount) = row ! (rowSize - 2)"
    proof -
      have "lastMax - stepCount = (rowSize - 2) * stepCount"
        unfolding "1.prems"(2) using True by (simp add: diff_mult_distrib)
      then show ?thesis using True by (simp add: row_def)
    qed
    have a1: "hashlist ! lastMax = row ! (rowSize - 1)"
      using True "1.prems" by (simp add: row_def)
    show ?thesis
    proof (cases "hashlist ! (lastMax - stepCount) = hashlist ! lastMax")
      case eq: True
      then have "duplicate_sibling H row"
        using True lr a1 a2 by (subst duplicate_sibling.simps) simp
      then show ?thesis
        using True g eq unfolding row_def [symmetric] by (subst merkle_rows.simps) simp
    next
      case ne: False
      from merkle_pairs_row [OF "1.prems", of H] obtain hl' where
        r: "merkle_pairs H hashlist stepCount lastMax rowSize 0 = Some hl'"
        and len: "length hl' = length hashlist"
        and row': "strided hl' (stepCount * 2) ((rowSize + 1) div 2) = pair_row H row"
        unfolding row_def by blast
      define n' where "n' = (rowSize + 1) div 2"
      define lm' where "lm' = 2 * ((rowSize - 1) div 2) * stepCount"
      have n': "0 < n'" using True by (simp add: n'_def)
      have h: "(rowSize + 1) div 2 - 1 = (rowSize - 1) div 2" using True by presburger
      have lm': "lm' = (n' - 1) * (stepCount * 2)"
        unfolding lm'_def n'_def h by (simp add: mult_ac)
      have "lm' \<le> lastMax"
      proof -
        have "2 * ((rowSize - 1) div 2) \<le> rowSize - 1" by simp
        then have "2 * ((rowSize - 1) div 2) * stepCount \<le> (rowSize - 1) * stepCount"
          by (rule mult_le_mono1)
        then show ?thesis unfolding lm'_def "1.prems"(2) .
      qed
      then have lml: "lm' < length hl'" using "1.prems" len by simp
      have s2: "0 < stepCount * 2" using "1.prems" by simp
      have IH: "merkle_rows H hl' match (stepCount * 2) lm' n' =
            Some (\<not> duplicate_sibling H (strided hl' (stepCount * 2) n') \<and>
                  merkle_fold H (strided hl' (stepCount * 2) n') = match)"
        unfolding lm'_def n'_def
        by (rule "1.IH" [OF True g ne r s2 lm' [unfolded lm'_def n'_def] lml [unfolded lm'_def] n' [unfolded n'_def]])
      have unfold: "merkle_rows H hashlist match stepCount lastMax rowSize =
                    merkle_rows H hl' match (stepCount * 2) lm' n'"
        using True g ne r by (subst merkle_rows.simps) (simp add: lm'_def n'_def)
      have d: "duplicate_sibling H row = duplicate_sibling H (pair_row H row)"
        using True lr ne a1 a2 by (subst duplicate_sibling.simps) simp
      have f: "merkle_fold H row = merkle_fold H (pair_row H row)"
        using True lr by (subst merkle_fold.simps) simp
      show ?thesis
        unfolding row_def [symmetric] unfold IH
        using row' d f by (simp add: n'_def)
    qed
  qed
qed

lemma strided_one: "strided hl (Suc 0) (length hl) = hl"
  by (simp add: strided_def map_nth)

text \<open>
  Claim C5, as amended. For a non-empty buffer of leaf hashes, \<open>merkleRootMatches\<close>
  returns true exactly when no row of the fold ends in two equal hashes and the in-order
  pairwise fold of the leaves (an odd row pairing its last element with itself) equals
  the given root. In particular a buffer with such a row is answered with false whatever
  the root.
\<close>

theorem merkleRootMatches_fold:
  assumes "hashlist \<noteq> []"
  shows "merkleRootMatches H hashlist R =
         Some (\<not> duplicate_sibling H hashlist \<and> merkle_fold H hashlist = R)"
proof -
  have "merkle_rows H hashlist R 1 (length hashlist - 1) (length hashlist) =
         Some (\<not> duplicate_sibling H (strided hashlist 1 (length hashlist)) \<and>
               merkle_fold H (strided hashlist 1 (length hashlist)) = R)"
    by (rule merkle_rows_result) (use assms in auto)
  then show ?thesis using assms by (simp add: merkleRootMatches_def strided_one)
qed

lemma merkleRootMatches_duplicate:
  assumes "hashlist \<noteq> []" "duplicate_sibling H hashlist"
  shows "merkleRootMatches H hashlist R = Some False"
proof -
  have "merkle_rows H hashlist R 1 (length hashlist - 1) (length hashlist) =
         Some (\<not> duplicate_sibling H (strided hashlist 1 (length hashlist)) \<and>
               merkle_fold H (strided hashlist 1 (length hashlist)) = R)"
    by (rule merkle_rows_result) (use assms in auto)
  then show ?thesis using assms by (simp add: merkleRootMatches_def strided_one)
qed

text \<open>
  The claim as stated fails on inputs that pair no leaf with an equal sibling. In the
  three leaves \<open>x, y, y\<close> the siblings are \<open>x, y\<close> and the last leaf with
  itself, as in every odd row; in the four leaves \<open>x, y, x, y\<close> no two neighbours
  are equal, and it is the second row that holds the same hash twice. In both the fold
  equals the root it is compared with, and the answer is false.
\<close>

theorem merkleRootMatches_fold_counterexample:
  "toy_hash [1] \<noteq> toy_hash [2] \<and>
   merkle_fold toy [toy_hash [1], toy_hash [2], toy_hash [2]] =
     toy_hash (toy_hash (toy_hash [1] @ toy_hash [2]) @ toy_hash (toy_hash [2] @ toy_hash [2])) \<and>
   merkleRootMatches toy [toy_hash [1], toy_hash [2], toy_hash [2]]
     (toy_hash (toy_hash (toy_hash [1] @ toy_hash [2]) @ toy_hash (toy_hash [2] @ toy_hash [2]))) =
     Some False \<and>
   merkle_fold toy [toy_hash [1], toy_hash [2], toy_hash [1], toy_hash [2]] =
     toy_hash (toy_hash (toy_hash [1] @ toy_hash [2]) @ toy_hash (toy_hash [1] @ toy_hash [2])) \<and>
   merkleRootMatches toy [toy_hash [1], toy_hash [2], toy_hash [1], toy_hash [2]]
     (toy_hash (toy_hash (toy_hash [1] @ toy_hash [2]) @ toy_hash (toy_hash [1] @ toy_hash [2]))) =
     Some False"
  by code_simp

lemma merkle_example:
  "\<not> duplicate_sibling toy [toy_hash [1], toy_hash [2], toy_hash [3]] \<and>
   merkle_fold toy [toy_hash [1], toy_hash [2], toy_hash [3]] =
     toy_hash (toy_hash (toy_hash [1] @ toy_hash [2]) @ toy_hash (toy_hash [3] @ toy_hash [3]))"
  by code_simp

theorem merkleRootMatches_fold_witness:
  "[toy_hash [1], toy_hash [2], toy_hash [3]] \<noteq> [] \<and>
   merkleRootMatches toy [toy_hash [1], toy_hash [2], toy_hash [3]]
     (toy_hash (toy_hash (toy_hash [1] @ toy_hash [2]) @ toy_hash (toy_hash [3] @ toy_hash [3]))) =
     Some True"
  using merkleRootMatches_fold [of "[toy_hash [1], toy_hash [2], toy_hash [3]]" toy
      "toy_hash (toy_hash (toy_hash [1] @ toy_hash [2]) @ toy_hash (toy_hash [3] @ toy_hash [3]))"]
    merkle_example
  by simp

section \<open>\<open>tweak_sort\<close> replays the sender's removals\<close>

lemma length_remove_nth [simp]: "i < length xs \<Longrightarrow> length (remove_nth i xs) = length xs - 1"
  by (auto simp: remove_nth_def)

lemma remove_nth_nth:
  "i < length xs \<Longrightarrow> remove_nth i xs ! k = (if k < i then xs ! k else xs ! Suc k)"
  by (auto simp: remove_nth_def nth_append min_def)

lemma remove_nth_commute:
  assumes "j < i" "i < length xs"
  shows "remove_nth (i - 1) (remove_nth j xs) = remove_nth j (remove_nth i xs)"
proof (rule nth_equalityI)
  show "length (remove_nth (i - 1) (remove_nth j xs)) = length (remove_nth j (remove_nth i xs))"
    using assms by simp
next
  fix k assume "k < length (remove_nth (i - 1) (remove_nth j xs))"
  then have k: "k < length xs - 2" using assms by simp
  show "remove_nth (i - 1) (remove_nth j xs) ! k = remove_nth j (remove_nth i xs) ! k"
    using assms k by (auto simp: remove_nth_nth)
qed

lemma takeout_append:
  "takeout (ps @ qs) D = Some (A, D') \<longleftrightarrow>
     (\<exists>A1 D1 A2. takeout ps D = Some (A1, D1) \<and> takeout qs D1 = Some (A2, D') \<and> A = A1 @ A2)"
proof (induction ps arbitrary: D A)
  case Nil
  show ?case by simp
next
  case (Cons p ps)
  show ?case
  proof (cases "idx p < length D")
    case False
    then show ?thesis by simp
  next
    case True
    show ?thesis
      using True Cons [of "remove_nth (idx p) D"]
      by (auto simp: split_def)
  qed
qed

lemma lowered_0 [simp]: "lowered l 0 = l"
  by (simp add: lowered_def)

lemma lowered_lowered: "lowered (lowered l c) (Suc 0) = lowered l (Suc c)"
  by (simp add: lowered_def algebra_simps)

lemma takeout_move_front:
  assumes "\<forall>x\<in>set L. idx r < idx x" "takeout (L @ r # rs) D = Some (A, D')"
  shows "\<exists>A'. takeout (r # map (\<lambda>x. lowered x 1) L @ rs) D = Some (A', D') \<and> mset A' = mset A"
  using assms
proof (induction L arbitrary: D A)
  case Nil
  then show ?case by simp
next
  case (Cons x L)
  have rx: "idx r < idx x" using Cons.prems by simp
  from Cons.prems(2) have xl: "idx x < length D"
    by (simp split: if_splits)
  define D1 where "D1 = remove_nth (idx x) D"
  from Cons.prems(2) xl obtain A1 where
    t1: "takeout (L @ r # rs) D1 = Some (A1, D')" and A: "A = (pos x, D ! idx x) # A1"
    by (auto simp: D1_def)
  from Cons.IH [OF _ t1] Cons.prems(1) obtain A1' where
    t2: "takeout (r # map (\<lambda>x. lowered x 1) L @ rs) D1 = Some (A1', D')" and m: "mset A1' = mset A1"
    by auto
  from t2 have rl: "idx r < length D1" by (simp split: if_splits)
  with t2 obtain A1'' where
    t3: "takeout (map (\<lambda>x. lowered x 1) L @ rs) (remove_nth (idx r) D1) = Some (A1'', D')"
    and A1': "A1' = (pos r, D1 ! idx r) # A1''"
    by auto
  have x1: "idx (lowered x 1) = idx x - 1" using rx by (intro idx_lowered) simp
  define D2 where "D2 = remove_nth (idx r) D"
  have rD: "idx r < length D" using rx xl by simp
  have l2: "idx x - 1 < length D2" using rx xl rD by (simp add: D2_def)
  have i2: "D2 ! (idx x - 1) = D ! idx x" using rx rD by (auto simp: D2_def remove_nth_nth)
  have i1: "D1 ! idx r = D ! idx r" using rx xl by (simp add: D1_def remove_nth_nth)
  have c: "remove_nth (idx x - 1) D2 = remove_nth (idx r) D1"
    unfolding D1_def D2_def by (rule remove_nth_commute [OF rx xl])
  have "takeout (r # map (\<lambda>x. lowered x 1) (x # L) @ rs) D =
        Some ((pos r, D ! idx r) # (pos x, D ! idx x) # A1'', D')"
    using rD l2 i2 c t3 x1 by (simp add: D2_def [symmetric])
  moreover have "mset ((pos r, D ! idx r) # (pos x, D ! idx x) # A1'') = mset A"
    using A A1' m i1 by simp
  ultimately show ?case by blast
qed

lemma tmerge_takeout:
  assumes "sorted (map idx ls)" "\<forall>l\<in>set ls. c \<le> idx l"
    and "takeout (map (\<lambda>l. lowered l c) ls @ rs) D = Some (A, D')"
  shows "\<exists>A'. takeout (tmerge c ls rs) D = Some (A', D') \<and> mset A' = mset A"
  using assms
proof (induction c ls rs arbitrary: D A rule: tmerge.induct)
  case (1 c rs)
  then show ?case by simp
next
  case (2 c l ls)
  from "2.prems"(3) have ll: "idx (lowered l c) < length D" by (simp split: if_splits)
  with "2.prems"(3) obtain A1 where
    t1: "takeout (map (\<lambda>l. lowered l c) ls @ []) (remove_nth (idx (lowered l c)) D) = Some (A1, D')"
    and A: "A = (pos l, D ! idx (lowered l c)) # A1"
    by auto
  from "2.IH" [OF _ _ t1] "2.prems"(1,2) obtain A1' where
    "takeout (tmerge c ls []) (remove_nth (idx (lowered l c)) D) = Some (A1', D')" "mset A1' = mset A1"
    by auto
  then show ?case using ll A by simp
next
  case (3 c l ls r rs)
  have cl: "c \<le> idx l" using "3.prems" by simp
  show ?case
  proof (cases "takes_left l c r")
    case True
    from "3.prems"(3) have ll: "idx (lowered l c) < length D" by (simp split: if_splits)
    with "3.prems"(3) obtain A1 where
      t1: "takeout (map (\<lambda>l. lowered l c) ls @ r # rs) (remove_nth (idx (lowered l c)) D) = Some (A1, D')"
      and A: "A = (pos l, D ! idx (lowered l c)) # A1"
      by auto
    from "3.IH"(1) [OF True _ _ t1] "3.prems"(1,2) obtain A1' where
      "takeout (tmerge c ls (r # rs)) (remove_nth (idx (lowered l c)) D) = Some (A1', D')"
      "mset A1' = mset A1"
      by auto
    then show ?thesis using True ll A by simp
  next
    case False
    then have lr: "idx r < idx l - c" using takes_left_iff [OF cl] by simp
    have all: "\<forall>x\<in>set (map (\<lambda>l. lowered l c) (l # ls)). idx r < idx x"
    proof
      fix x assume "x \<in> set (map (\<lambda>l. lowered l c) (l # ls))"
      then obtain y where y: "y \<in> set (l # ls)" "x = lowered y c" by auto
      then have "idx l \<le> idx y" using "3.prems"(1) by auto
      moreover have "c \<le> idx y" using y "3.prems"(2) by auto
      ultimately show "idx r < idx x" using lr y by (simp add: idx_lowered)
    qed
    from takeout_move_front [OF all "3.prems"(3)] obtain A1 where
      t1: "takeout (r # map (\<lambda>x. lowered x 1) (map (\<lambda>l. lowered l c) (l # ls)) @ rs) D = Some (A1, D')"
      and m1: "mset A1 = mset A"
      by blast
    have eq: "map (\<lambda>x. lowered x 1) (map (\<lambda>l. lowered l c) (l # ls)) = map (\<lambda>l. lowered l (Suc c)) (l # ls)"
      by (simp add: lowered_lowered)
    from t1 have rl: "idx r < length D" by (simp split: if_splits)
    with t1 obtain A2 where
      t2: "takeout (map (\<lambda>l. lowered l (Suc c)) (l # ls) @ rs) (remove_nth (idx r) D) = Some (A2, D')"
      and A1: "A1 = (pos r, D ! idx r) # A2"
      unfolding eq by auto
    have s: "\<forall>l'\<in>set (l # ls). Suc c \<le> idx l'" using "3.prems"(1) lr by auto
    from "3.IH"(2) [OF False "3.prems"(1) s t2] obtain A2' where
      "takeout (tmerge (Suc c) (l # ls) rs) (remove_nth (idx r) D) = Some (A2', D')"
      "mset A2' = mset A2"
      by blast
    then show ?thesis using False rl A1 m1 by auto
  qed
qed

lemma tsort_takeout:
  assumes "takeout ps D = Some (A, D')"
  shows "\<exists>A'. takeout (tsort ps) D = Some (A', D') \<and> mset A' = mset A"
  using assms
proof (induction ps arbitrary: D A D' rule: tsort.induct)
  case (1 xs)
  show ?case
  proof (cases "length xs \<le> 1")
    case True
    then have "tsort xs = xs" by (subst tsort.simps) simp
    with "1.prems" show ?thesis by auto
  next
    case False
    define h where "h = length xs div 2"
    have xs: "xs = take h xs @ drop h xs" by simp
    have "takeout (take h xs @ drop h xs) D = Some (A, D')" using "1.prems" by simp
    then obtain A1 D1 A2 where
      t1: "takeout (take h xs) D = Some (A1, D1)" and t2: "takeout (drop h xs) D1 = Some (A2, D')"
      and A: "A = A1 @ A2"
      unfolding takeout_append by blast
    from "1.IH"(1) [OF False t1 [unfolded h_def]] obtain A1' where
      s1: "takeout (tsort (take h xs)) D = Some (A1', D1)" and m1: "mset A1' = mset A1"
      unfolding h_def by blast
    from "1.IH"(2) [OF False t2 [unfolded h_def]] obtain A2' where
      s2: "takeout (tsort (drop h xs)) D1 = Some (A2', D')" and m2: "mset A2' = mset A2"
      unfolding h_def by blast
    have "takeout (map (\<lambda>l. lowered l 0) (tsort (take h xs)) @ tsort (drop h xs)) D = Some (A1' @ A2', D')"
      using s1 s2 by (auto simp: takeout_append)
    from tmerge_takeout [OF tsort_sorted _ this] obtain A' where
      "takeout (tmerge 0 (tsort (take h xs)) (tsort (drop h xs))) D = Some (A', D')"
      "mset A' = mset (A1' @ A2')"
      by auto
    moreover have "tsort xs = tmerge 0 (tsort (take h xs)) (tsort (drop h xs))"
      using False by (subst tsort.simps) (simp add: h_def)
    ultimately show ?thesis using A m1 m2 by auto
  qed
qed

lemma takeout_defined:
  assumes "\<forall>p\<in>set ps. idx p + length ps \<le> length D"
  shows "\<exists>A D'. takeout ps D = Some (A, D')"
  using assms
proof (induction ps arbitrary: D)
  case Nil
  then show ?case by simp
next
  case (Cons p ps)
  have pl: "idx p < length D" using Cons.prems by auto
  have "\<forall>q\<in>set ps. idx q + length ps \<le> length (remove_nth (idx p) D)"
    using Cons.prems pl by auto
  from Cons.IH [OF this] pl show ?case by auto
qed

lemma fold_max_ge: "(m::nat) \<le> fold max xs m"
  by (induction xs arbitrary: m) (auto intro: order_trans [OF max.cobounded2])

lemma fold_max_mem: "x \<in> set xs \<Longrightarrow> (x::nat) \<le> fold max xs m"
  by (induction xs arbitrary: m) (auto intro: order_trans [OF max.cobounded1 fold_max_ge])

lemma takeout_numbered: "\<exists>A D'. takeout ps (numbered_cache ps) = Some (A, D')"
proof (rule takeout_defined)
  show "\<forall>p\<in>set ps. idx p + length ps \<le> length (numbered_cache ps)"
    using fold_max_mem [of _ "map idx ps" 0] by (auto simp: numbered_cache_def)
qed

lemma sorted_takeout_nth:
  assumes "sorted (map idx T)" "takeout T D = Some (A, D')"
  shows "length A = length T \<and>
         (\<forall>r<length T. idx (T ! r) + r < length D \<and> A ! r = (pos (T ! r), D ! (idx (T ! r) + r)))"
  using assms
proof (induction T arbitrary: D A)
  case Nil
  then show ?case by simp
next
  case (Cons p ps)
  from Cons.prems(2) have pl: "idx p < length D" by (simp split: if_splits)
  define D1 where "D1 = remove_nth (idx p) D"
  from Cons.prems(2) pl obtain A1 where
    t1: "takeout ps D1 = Some (A1, D')" and A: "A = (pos p, D ! idx p) # A1"
    by (auto simp: D1_def)
  have sp: "sorted (map idx ps)" using Cons.prems(1) by simp
  note IH = Cons.IH [OF sp t1]
  show ?case
  proof (rule conjI; (intro allI impI)?)
    show "length A = length (p # ps)" using IH A by simp
  next
    fix r assume r: "r < length (p # ps)"
    show "idx ((p # ps) ! r) + r < length D \<and> A ! r = (pos ((p # ps) ! r), D ! (idx ((p # ps) ! r) + r))"
    proof (cases r)
      case 0
      then show ?thesis using pl A by simp
    next
      case (Suc r')
      then have r': "r' < length ps" using r by simp
      from IH r' have b: "idx (ps ! r') + r' < length D1"
        and a: "A1 ! r' = (pos (ps ! r'), D1 ! (idx (ps ! r') + r'))" by auto
      have ge: "idx p \<le> idx (ps ! r')" using Cons.prems(1) r' by auto
      have "D1 ! (idx (ps ! r') + r') = D ! Suc (idx (ps ! r') + r')"
        using ge pl by (simp add: D1_def remove_nth_nth)
      then show ?thesis using Suc a b pl A by (simp add: D1_def)
    qed
  qed
qed

lemma filter_distinct_key:
  assumes "distinct (map f xs)" "k \<in> set xs"
  shows "filter (\<lambda>x. f k = f x) xs = [k]"
  using assms
proof (induction xs)
  case Nil
  then show ?case by simp
next
  case (Cons x xs)
  show ?case
  proof (cases "k = x")
    case True
    have "filter (\<lambda>y. f x = f y) xs = []"
      using Cons.prems(1) by (auto simp: filter_empty_conv)
    with True show ?thesis by simp
  next
    case False
    then have kx: "k \<in> set xs" using Cons.prems by simp
    have "f x \<notin> f ` set xs" using Cons.prems by simp
    with kx have "f k \<noteq> f x" by (metis imageI)
    with Cons False show ?thesis by auto
  qed
qed

text \<open>
  Claim C3, as amended. For every list of (index, position) pairs, \<open>tweak_sort\<close>
  applied to the whole list produces the same result as this reference formulation: find
  the original cache position of every pair by replaying the removals in wire order, sort
  the pairs by original position ascending, then subtract from each original position the
  number of elements placed before it.
\<close>

theorem tweak_sort_origin: "tweak_sort ptrs 0 (length ptrs) = origin_tweak ptrs"
proof -
  define D where "D = numbered_cache ptrs"
  obtain A D' where t: "takeout ptrs D = Some (A, D')"
    using takeout_numbered [of ptrs] unfolding D_def by blast
  define T where "T = tsort ptrs"
  obtain A' where t': "takeout T D = Some (A', D')" and m: "mset A' = mset A"
    using tsort_takeout [OF t] unfolding T_def by blast
  have sT: "sorted (map idx T)" unfolding T_def by (rule tsort_sorted)
  from sorted_takeout_nth [OF sT t'] have len: "length A' = length T"
    and nth: "\<And>r. r < length T \<Longrightarrow> idx (T ! r) + r < length D \<and> A' ! r = (pos (T ! r), D ! (idx (T ! r) + r))"
    by auto
  have A'nth: "A' ! r = (pos (T ! r), idx (T ! r) + r)" if "r < length T" for r
    using nth [OF that] by (simp add: D_def numbered_cache_def)
  have snd_nth: "map snd A' ! r = idx (T ! r) + r" if "r < length T" for r
    using A'nth [OF that] that len by simp
  have strict: "map snd A' ! i < map snd A' ! j" if "i < j" "j < length T" for i j
  proof -
    have "idx (T ! i) \<le> idx (T ! j)"
      using sT that by (simp add: sorted_iff_nth_mono)
    then show ?thesis using that snd_nth [of i] snd_nth [of j] by simp
  qed
  have sortedA': "sorted (map snd A')"
    unfolding sorted_iff_nth_mono_less using strict len by (auto intro: less_imp_le)
  have distA': "distinct (map snd A')"
    unfolding distinct_conv_nth using strict len
    by (metis length_map less_irrefl_nat linorder_neqE_nat)
  have distA: "distinct (map snd A)"
  proof -
    have "mset (map snd A) = mset (map snd A')" using m by simp
    then show ?thesis using distA' by (metis mset_eq_imp_distinct_iff)
  qed
  have setA: "set A' = set A" using m by (metis mset_eq_setD)
  have sk: "sort_key snd A = A'"
  proof (rule properties_for_sort_key)
    show "mset A' = mset A" by (rule m)
    show "sorted (map snd A')" by (rule sortedA')
    show "\<And>k. k \<in> set A' \<Longrightarrow> filter (\<lambda>x. snd k = snd x) A' = filter (\<lambda>x. snd k = snd x) A"
      using filter_distinct_key [OF distA'] filter_distinct_key [OF distA] setA by simp
  qed
  have "origin_tweak ptrs =
        map (\<lambda>(r, (p, origin)). \<lparr>IndexPtr.index = word_of_nat (origin - r), pos = p\<rparr>) (enumerate 0 A')"
    using t sk by (simp add: origin_tweak_def D_def)
  also have "\<dots> = T"
  proof (rule nth_equalityI)
    show "length (map (\<lambda>(r, (p, origin)). \<lparr>IndexPtr.index = word_of_nat (origin - r), pos = p\<rparr>) (enumerate 0 A')) = length T"
      using len by simp
  next
    fix r assume "r < length (map (\<lambda>(r, (p, origin)). \<lparr>IndexPtr.index = word_of_nat (origin - r), pos = p\<rparr>) (enumerate 0 A'))"
    then have r: "r < length T" using len by simp
    then show "map (\<lambda>(r, (p, origin)). \<lparr>IndexPtr.index = word_of_nat (origin - r), pos = p\<rparr>) (enumerate 0 A') ! r = T ! r"
      using len A'nth [OF r] by (simp add: nth_enumerate_eq)
  qed
  finally show ?thesis by (simp add: tweak_sort_whole T_def)
qed

text \<open>
  The claim as stated fails: for the wire indices 2, 1, 1 the code puts the pair of
  position 0 second, with index 1; a stable sort by wire index puts it last.
\<close>

theorem tweak_sort_origin_counterexample:
  "tweak_sort (mk_ptrs [(2, 0), (1, 1), (1, 2)]) 0 (length (mk_ptrs [(2, 0), (1, 1), (1, 2)])) =
     mk_ptrs [(1, 1), (1, 0), (1, 2)] \<and>
   spec_tweak (mk_ptrs [(2, 0), (1, 1), (1, 2)]) = mk_ptrs [(1, 1), (1, 2), (0, 0)]"
  by code_simp

lemma tweak_sort_whole_example:
  "tweak_sort (mk_ptrs [(2, 0), (1, 1), (1, 2)]) 0 (length (mk_ptrs [(2, 0), (1, 1), (1, 2)])) =
     mk_ptrs [(1, 1), (1, 0), (1, 2)]"
  by code_simp

theorem tweak_sort_origin_witness:
  "origin_tweak (mk_ptrs [(2, 0), (1, 1), (1, 2)]) = mk_ptrs [(1, 1), (1, 0), (1, 2)]"
  using tweak_sort_origin [of "mk_ptrs [(2, 0), (1, 1), (1, 2)]"] tweak_sort_whole_example
  by simp

section \<open>The wire-byte count\<close>

lemma be_nat_2: "length ib = 2 \<Longrightarrow> be_nat ib < 65536"
proof -
  assume "length ib = 2"
  then obtain a b where ib: "ib = [a, b]"
    by (cases ib; cases "tl ib") auto
  have "unat a < 256" "unat b < 256" using unsigned_less [of a] unsigned_less [of b] by simp_all
  then show ?thesis by (simp add: ib be_nat_def)
qed

lemma index_ffff:
  assumes "length ib = 2"
  shows "((word_of_nat (be_nat ib) :: 16 word) = 0xffff) = (be_nat ib = 65535)"
proof -
  have "unat (word_of_nat (be_nat ib) :: 16 word) = be_nat ib"
    using be_nat_2 [OF assms] by (simp add: unat_of_nat take_bit_nat_eq_self_iff)
  moreover have "unat (0xffff :: 16 word) = 65535" by simp
  ultimately show ?thesis by (simp add: word_eq_iff_unsigned [where ?'a = nat])
qed

lemma read_tx_item:
  assumes "read_tx H st rd i = (eo, st', rd')"
  shows "case next_item rd of
           None \<Rightarrow> eo \<noteq> None
         | Some (item, rd1) \<Rightarrow>
             eo = None \<and> rd' = rd1 \<and>
             wire_bytes st' = wire_bytes st + word_of_nat (item_bytes item) \<and>
             check_merkle st' = check_merkle st \<and>
             tx_count st' = tx_count st \<and>
             txn_ptrs st' = txn_ptrs st @ item_ptrs1 i item"
proof (cases "length rd < 2")
  case True
  with assms show ?thesis by (auto simp: read_tx_def next_item_def read_all_def)
next
  case False
  then have l2: "length (take 2 rd) = 2" by simp
  note ff = index_ffff [OF l2]
  show ?thesis
  proof (cases "be_nat (take 2 rd) = 65535")
    case ref: False
    with assms False ff show ?thesis
      by (auto simp: read_tx_def next_item_def read_all_def Let_def)
  next
    case inl: True
    show ?thesis
    proof (cases "length rd < 5")
      case True
      then have r3: "read_all (drop 2 rd) 3 = None"
        by (auto simp: read_all_def)
      have r2: "read_all rd 2 = Some (take 2 rd, drop 2 rd)"
        using False by (simp add: read_all_def)
      from assms False ff inl True show ?thesis
        by (auto simp: read_tx_def next_item_def r2 r3 Let_def)
    next
      case l5: False
      then have r3: "read_all (drop 2 rd) 3 = Some (take 3 (drop 2 rd), drop 5 rd)"
        by (simp add: read_all_def add.commute)
      define tx_size where "tx_size = be_nat (take 3 (drop 2 rd))"
      have r2: "read_all rd 2 = Some (take 2 rd, drop 2 rd)"
        using False by (simp add: read_all_def)
      have rt: "read_all (drop 5 rd) tx_size =
                  (if length rd < 5 + tx_size then None
                   else Some (take tx_size (drop 5 rd), drop (5 + tx_size) rd))"
        using l5 by (auto simp: read_all_def add.commute)
      have ni: "next_item rd =
                  (if tx_size > 1000000 \<or> length rd < 5 + tx_size then None
                   else Some (Inline tx_size, drop (5 + tx_size) rd))"
        using False inl l5 by (simp add: next_item_def tx_size_def Let_def)
      show ?thesis
        using assms ff inl
        by (auto simp: read_tx_def r2 r3 rt ni Let_def tx_size_def [symmetric] split: if_splits)
    qed
  qed
qed


lemma read_txs_items:
  assumes "read_txs H n st rd i = (eo, st', rd')" "i \<le> n"
  shows "case wire_items (n - i) rd of
           None \<Rightarrow> eo \<noteq> None
         | Some items \<Rightarrow>
             eo = None \<and> length items = n - i \<and>
             wire_bytes st' = wire_bytes st + word_of_nat (sum_list (map item_bytes items)) \<and>
             check_merkle st' = check_merkle st \<and>
             tx_count st' = tx_count st \<and>
             txn_ptrs st' = txn_ptrs st @ item_ptrs i items"
  using assms
proof (induction H n st rd i rule: read_txs.induct)
  case (1 H n state rd i)
  show ?case
  proof (cases "i < n")
    case False
    with "1.prems" show ?thesis by simp
  next
    case True
    then have m: "n - i = Suc (n - (i + 1))" by simp
    obtain e1 st1 rd1 where b: "read_tx H state rd i = (e1, st1, rd1)"
      by (cases "read_tx H state rd i") auto
    note ri = read_tx_item [OF b]
    show ?thesis
    proof (cases "next_item rd")
      case None
      with ri obtain err where e1: "e1 = Some err" by auto
      with "1.prems" True b have "eo = Some err"
        by (subst (asm) read_txs.simps) simp
      with None show ?thesis by (simp add: m)
    next
      case (Some a)
      obtain item rd2 where a: "a = (item, rd2)" by (cases a) auto
      from ri Some a have e1: "e1 = None" and rd1: "rd1 = rd2"
        and st1: "wire_bytes st1 = wire_bytes state + word_of_nat (item_bytes item)"
           "check_merkle st1 = check_merkle state" "tx_count st1 = tx_count state"
           "txn_ptrs st1 = txn_ptrs state @ item_ptrs1 i item"
        by auto
      from "1.prems" True b e1 have rec: "read_txs H n st1 rd1 (i + 1) = (eo, st', rd')"
        by (subst (asm) read_txs.simps) simp
      have le: "i + 1 \<le> n" using True by simp
      note ih = "1.IH" [OF True b [unfolded e1, symmetric] refl refl rec le]
      show ?thesis
      proof (cases "wire_items (n - (i + 1)) rd1")
        case None
        with ih Some a rd1 show ?thesis by (simp add: m)
      next
        case items: (Some items)
        with ih Some a rd1 st1 show ?thesis by (simp add: m)
      qed
    qed
  qed
qed

lemma fetch_tx_wire_bytes:
  assumes "fetch_tx H st c l ptr = Some (eo, st', c')"
  shows "wire_bytes st' = wire_bytes st \<and> check_merkle st' = check_merkle st"
  using assms by (auto simp: fetch_tx_def split: if_splits option.splits)

lemma fetch_txs_wire_bytes:
  assumes "fetch_txs H ptrs st c l i = Some (eo, st', c')"
  shows "wire_bytes st' = wire_bytes st \<and> check_merkle st' = check_merkle st"
  using assms
proof (induction H ptrs st c l i rule: fetch_txs.induct)
  case (1 H ptrs state cache last_index i)
  show ?case
  proof (cases "i < length ptrs")
    case False
    with "1.prems" show ?thesis by simp
  next
    case True
    from "1.prems" True obtain e1 st1 c1 where
      b: "fetch_tx H state cache last_index (ptrs ! i) = Some (e1, st1, c1)"
      by (subst (asm) fetch_txs.simps) (auto split: option.splits)
    note fw = fetch_tx_wire_bytes [OF b]
    show ?thesis
    proof (cases e1)
      case (Some err)
      with "1.prems" True b have "st' = st1"
        by (subst (asm) fetch_txs.simps) simp
      with fw show ?thesis by simp
    next
      case None
      with "1.prems" True b have
        "fetch_txs H ptrs st1 c1 (int (unat (IndexPtr.index (ptrs ! i)))) (i + 1) = Some (eo, st', c')"
        by (subst (asm) fetch_txs.simps) simp
      from "1.IH" [OF True b [unfolded None] refl refl refl this] fw show ?thesis
        by simp
    qed
  qed
qed

lemma decompress_rest_wire_bytes:
  assumes "decompress_rest H s1 st3 rd1 = Some (None, st', s', rd')"
  shows "case wire_items (tx_count st3) rd1 of
           None \<Rightarrow> False
         | Some items \<Rightarrow>
             length items = tx_count st3 \<and>
             wire_bytes st' = wire_bytes st3 + word_of_nat (sum_list (map item_bytes items))"
proof -
  obtain e4 st4 rd2 where r: "read_txs H (tx_count st3) st3 rd1 0 = (e4, st4, rd2)"
    by (cases "read_txs H (tx_count st3) st3 rd1 0") auto
  note ri = read_txs_items [OF r]
  show ?thesis
  proof (cases e4)
    case (Some err)
    with assms r show ?thesis by (simp add: decompress_rest_def)
  next
    case None
    define st5 where "st5 = st4\<lparr>txn_ptrs := tweak_sort (txn_ptrs st4) 0 (length (txn_ptrs st4))\<rparr>"
    from assms r None obtain e6 st6 c6 where
      f: "fetch_txs H (txn_ptrs st5) st5 (recv_tx_cache s1) (- 1) 0 = Some (e6, st6, c6)"
      by (auto simp: decompress_rest_def Let_def st5_def split: option.splits)
    from fetch_txs_wire_bytes [OF f] have w6: "wire_bytes st6 = wire_bytes st4"
      by (simp add: st5_def)
    from assms r None f have "wire_bytes st' = wire_bytes st6"
      by (cases e6) (auto simp: decompress_rest_def Let_def st5_def split: if_splits option.splits)
    with w6 ri None show ?thesis
      by (auto split: option.splits)
  qed
qed


lemma header_state_init:
  assumes "length hdr = 80"
  shows "drop bitcoin_msg_header_size (block (header_state H (DecompressState_init cm n) hdr)) = hdr"
    "check_merkle (header_state H (DecompressState_init cm n) hdr) = cm"
    "tx_count (header_state H (DecompressState_init cm n) hdr) = n"
    "wire_bytes (header_state H (DecompressState_init cm n) hdr) = 12"
    "txn_ptrs (header_state H (DecompressState_init cm n) hdr) = []"
  using assms
  by (simp_all add: header_state_def DecompressState_init_def bitcoin_msg_header_size_def)

text \<open>
  Claim C10, as amended. When \<open>decompress_relay_block\<close> succeeds, the stream after
  the 80 header bytes parses into as many entries as the transaction count says, and the
  returned wire-byte count is, modulo \<open>2^32\<close> (the counter is a \<open>uint32_t\<close>),
  12 plus two bytes for every entry plus, for every inline entry, three bytes and its
  declared size. The 80 header bytes are not counted.
\<close>

theorem wire_bytes_count:
  assumes "decompress_relay_block H K s rd n cm = Some ((wb, b, None, h), s', rd')"
  shows "case wire_items (unat n) (drop 80 rd) of
           None \<Rightarrow> False
         | Some items \<Rightarrow> length items = unat n \<and> unat wb = wire_count items mod 2 ^ 32"
proof -
  define st0 where "st0 = DecompressState_init cm (unat n)"
  from assms obtain st where
    d: "do_decompress H K s st0 rd = Some (None, st, s', rd')" and wb: "wb = wire_bytes st"
    by (auto simp: decompress_relay_block_def st0_def split: if_splits option.splits prod.splits)
  from d obtain hdr rd1 where ra: "read_all rd 80 = Some (hdr, rd1)"
    by (cases "read_all rd 80") (auto simp: do_decompress_stages)
  then have hdr: "hdr = take 80 rd" "rd1 = drop 80 rd" "length hdr = 80"
    by (auto simp: read_all_def split: if_splits)
  define st2 where "st2 = header_state H st0 hdr"
  define s1 where "s1 = s\<lparr>blocksAlreadySeen := insert (fullhashptr st2) (blocksAlreadySeen s)\<rparr>"
  define st3 where "st3 = st2\<lparr>block := block st2 @ varint (tx_count st0)\<rparr>"
  from d have rest: "decompress_rest H s1 st3 rd1 = Some (None, st, s', rd')"
    by (auto simp: do_decompress_stages ra st2_def s1_def st3_def split: if_splits)
  have st3: "tx_count st3 = unat n" "wire_bytes st3 = 12"
    using header_state_init [OF hdr(3), of H cm "unat n"]
    by (simp_all add: st3_def st2_def st0_def)
  have w: "unat (12 + word_of_nat k :: 32 word) = (12 + k) mod 2 ^ 32" for k
  proof -
    have "(12 + word_of_nat k :: 32 word) = word_of_nat (12 + k)" by simp
    then show ?thesis by (simp only: unat_of_nat take_bit_eq_mod) simp
  qed
  from decompress_rest_wire_bytes [OF rest] show ?thesis
    by (auto simp: st3 hdr wb wire_count_def w split: option.splits)
qed

lemma next_item_big: "next_item (big_entry @ rest) = Some (Inline 1000000, rest)"
proof -
  have t2: "take 2 (big_entry @ rest) = [0xff, 0xff]"
    and t3: "take 3 (drop 2 (big_entry @ rest)) = [0x0f, 0x42, 0x40]"
    and d5: "drop (5 + 1000000) (big_entry @ rest) = rest"
    and l: "length (big_entry @ rest) = 1000005 + length rest"
    by (simp_all add: big_entry_def)
  have b2: "be_nat [0xff, 0xff :: byte] = 65535" and b3: "be_nat [0x0f, 0x42, 0x40 :: byte] = 1000000"
    by (simp_all add: be_nat_def)
  show ?thesis
    by (simp only: next_item_def t2 t3 b2 b3 l d5 Let_def) simp
qed

lemma wire_items_big:
  "wire_items k (concat (replicate k big_entry) @ rest) = Some (replicate k (Inline 1000000))"
  by (induction k) (simp_all add: next_item_big)

lemma item_ptrs_inline: "item_ptrs i (replicate k (Inline z)) = []"
  by (induction k arbitrary: i) simp_all

lemma item_bytes_inline: "sum_list (map item_bytes (replicate k (Inline z))) = k * (5 + z)"
  by (induction k) simp_all

lemma decompress_inline_only:
  assumes "wire_items (unat n) rd1 = Some items" "item_ptrs 0 items = []" "n \<le> 100000"
    "length hdr = 80" "TEST_DATA K \<or> \<not> block_version hdr < 4"
  shows "map_option (\<lambda>((wb, b, e, h), s', rd'). (wb, e))
           (decompress_relay_block H K s (hdr @ rd1) n False) =
         Some (12 + word_of_nat (sum_list (map item_bytes items)), None)"
proof -
  define st0 where "st0 = DecompressState_init False (unat n)"
  define st2 where "st2 = header_state H st0 hdr"
  define s1 where "s1 = s\<lparr>blocksAlreadySeen := insert (fullhashptr st2) (blocksAlreadySeen s)\<rparr>"
  define st3 where "st3 = st2\<lparr>block := block st2 @ varint (tx_count st0)\<rparr>"
  note hs = header_state_init [OF assms(4), of H False "unat n"]
  have st3: "tx_count st3 = unat n" "wire_bytes st3 = 12" "txn_ptrs st3 = []"
    "check_merkle st3 = False"
    using hs by (simp_all add: st3_def st2_def st0_def)
  have ra: "read_all (hdr @ rd1) 80 = Some (hdr, rd1)"
    using assms(4) by (simp add: read_all_def)
  have cm0: "check_merkle (DecompressState_init False (unat n)) = False"
    by (simp add: DecompressState_init_def)
  have dd: "do_decompress H K s st0 (hdr @ rd1) = decompress_rest H s1 st3 rd1"
    using assms(5) hs
    by (auto simp: do_decompress_stages ra st3_def s1_def st2_def st0_def cm0)
  obtain e4 st4 rd2 where r: "read_txs H (unat n) st3 rd1 0 = (e4, st4, rd2)"
    by (cases "read_txs H (unat n) st3 rd1 0") auto
  from read_txs_items [OF r] assms(1,2) st3 have st4: "e4 = None"
    "wire_bytes st4 = 12 + word_of_nat (sum_list (map item_bytes items))"
    "check_merkle st4 = False" "txn_ptrs st4 = []"
    by simp_all
  have "decompress_rest H s1 st3 rd1 =
        Some (None, st4\<lparr>txn_ptrs := [], block := block st4 @ concat (map data (txn_data st4))\<rparr>,
              s1\<lparr>recv_tx_cache := recv_tx_cache s1\<rparr>, rd2)"
    by (simp add: decompress_rest_def st3 r st4 Let_def)
  with dd assms(3) show ?thesis
    by (simp add: decompress_relay_block_def st0_def [symmetric] st4 not_less [symmetric])
qed

lemma big_example:
  "wire_items (unat (4295 :: 32 word)) (concat (replicate 4295 big_entry)) =
     Some (replicate 4295 (Inline 1000000))"
proof -
  have "unat (4295 :: 32 word) = 4295" by simp
  then show ?thesis using wire_items_big [of 4295 "[]"] by (simp only: append_Nil2)
qed

lemma sample_header_version:
  "length sample_header = 80" "TEST_DATA K0 \<or> \<not> block_version sample_header < 4"
  by code_simp+

text \<open>
  The claim as stated fails when the sum passes \<open>2^32\<close>: for 4295 inline
  transactions of 1,000,000 bytes each the call succeeds, the sum is 4,295,021,487 and
  the returned count is 54,191.
\<close>

theorem wire_bytes_count_counterexample:
  "map_option (\<lambda>((wb, b, e, h), s', rd'). (wb, e))
     (decompress_relay_block toy K0 (sample_node [] [] {})
        (sample_header @ concat (replicate 4295 big_entry)) 4295 False) =
     Some (54191, None) \<and>
   wire_items 4295 (concat (replicate 4295 big_entry)) = Some (replicate 4295 (Inline 1000000)) \<and>
   wire_count (replicate 4295 (Inline 1000000)) = 4295021487"
proof -
  have "map_option (\<lambda>((wb, b, e, h), s', rd'). (wb, e))
     (decompress_relay_block toy K0 (sample_node [] [] {})
        (sample_header @ concat (replicate 4295 big_entry)) 4295 False) =
     Some (12 + word_of_nat (sum_list (map item_bytes (replicate 4295 (Inline 1000000)))), None)"
    by (rule decompress_inline_only [OF big_example item_ptrs_inline _ sample_header_version]) simp
  moreover have "(12 + word_of_nat (sum_list (map item_bytes (replicate 4295 (Inline 1000000)))) :: 32 word) = 54191"
    by (simp only: item_bytes_inline) simp
  moreover have "wire_items 4295 (concat (replicate 4295 big_entry)) =
      Some (replicate 4295 (Inline 1000000))"
    using wire_items_big [of 4295 "[]"] by (simp only: append_Nil2)
  moreover have "wire_count (replicate 4295 (Inline 1000000)) = 4295021487"
    by (simp only: wire_count_def item_bytes_inline) simp
  ultimately show ?thesis by (simp only: simp_thms)
qed

lemma wire_example:
  "decompress_relay_block toy K0 (sample_node [] [sample_tx 0] {})
      (sample_header @ [0xff, 0xff, 0, 0, 10] @ sample_tx 1 @ [0, 0]) 2 False =
     Some ((29, Some (sample_block [sample_tx 1, sample_tx 0]), None, Some (toy_hash sample_header)),
           sample_node [] [] {toy_hash sample_header}, [])"
  by code_simp

lemma wire_items_example:
  "wire_items (unat (2 :: 32 word)) (drop 80 (sample_header @ [0xff, 0xff, 0, 0, 10] @ sample_tx 1 @ [0, 0])) =
     Some [Inline 10, Reference 0]"
  by code_simp

theorem wire_bytes_count_witness:
  "decompress_relay_block toy K0 (sample_node [] [sample_tx 0] {})
      (sample_header @ [0xff, 0xff, 0, 0, 10] @ sample_tx 1 @ [0, 0]) 2 False =
     Some ((29, Some (sample_block [sample_tx 1, sample_tx 0]), None, Some (toy_hash sample_header)),
           sample_node [] [] {toy_hash sample_header}, []) \<and>
   wire_items (unat (2 :: 32 word))
      (drop 80 (sample_header @ [0xff, 0xff, 0, 0, 10] @ sample_tx 1 @ [0, 0])) =
     Some [Inline 10, Reference 0] \<and>
   length [Inline 10, Reference 0] = unat (2 :: 32 word) \<and>
   unat (29 :: 32 word) = wire_count [Inline 10, Reference 0] mod 2 ^ 32"
  using wire_bytes_count [OF wire_example] wire_example
  by (simp only: wire_items_example option.case simp_thms)

end
